theory Spec2Isabelle
  imports Complex_Main "HOL-Library.Word"
begin

section \<open>Load-leveling queue (commit\_queue.go, release queue)\<close>

text \<open>
  \<^verbatim>\<open>QueueMetrics\<close>: the two counters are \<^verbatim>\<open>int64\<close> and wrap around; the
  two durations are never written by the queue code. Go's \<^verbatim>\<open>int\<close> values that are
  lengths of slices or sums of such lengths are modelled as \<^typ>\<open>int\<close>.
\<close>

record QueueMetrics =
  EnqueueCount :: "64 word"
  DequeueCount :: "64 word"
  ProcessingTime :: "64 word"
  WaitTime :: "64 word"
  MaxQueueLength :: int

text \<open>
  \<^verbatim>\<open>CommitQueue\<close> and \<^verbatim>\<open>ReleaseQueue\<close> are the same struct over a different
  request type, which is the type parameter here. The mutex and the condition variable
  are not data: every operation below is one critical section.
\<close>

record 'a CommitQueue =
  items :: "'a list"
  maxSize :: int
  metrics :: QueueMetrics
  processing :: int

text \<open>
  \<^verbatim>\<open>CommitQueueProcessor\<close>: the queue, the cancellation state of \<^verbatim>\<open>ctx\<close>
  and the two configuration numbers. Logger, database handle and use case take no part
  in the queue operations.
\<close>

record 'a CommitQueueProcessor =
  queue :: "'a CommitQueue"
  ctx_done :: bool
  workerCount :: int
  batchSize :: int

definition NewCommitQueueProcessor :: "int \<Rightarrow> int \<Rightarrow> int \<Rightarrow> 'a CommitQueueProcessor" where
  "NewCommitQueueProcessor maxSize' workerCount' batchSize' =
     \<lparr> queue = \<lparr> items = [], maxSize = maxSize',
                 metrics = \<lparr> EnqueueCount = 0, DequeueCount = 0, ProcessingTime = 0,
                             WaitTime = 0, MaxQueueLength = 0 \<rparr>,
                 processing = 0 \<rparr>,
       ctx_done = False, workerCount = workerCount', batchSize = batchSize' \<rparr>"

definition EnqueueCommit :: "'a CommitQueueProcessor \<Rightarrow> 'a \<Rightarrow> 'a CommitQueueProcessor \<times> bool" where
  "EnqueueCommit p request =
     (let q = queue p in
      if maxSize q > 0 \<and> int (length (items q)) \<ge> maxSize q then (p, False)
      else
        let items' = items q @ [request];
            m = metrics q;
            m1 = m\<lparr>EnqueueCount := EnqueueCount m + 1\<rparr>;
            m2 = (if int (length items') > MaxQueueLength m1
                  then m1\<lparr>MaxQueueLength := int (length items')\<rparr> else m1)
        in (p\<lparr>queue := q\<lparr>items := items', metrics := m2\<rparr>\<rparr>, True))"

text \<open>
  \<^verbatim>\<open>EnqueueRelease\<close> (release queue) is the same code as \<^verbatim>\<open>EnqueueCommit\<close>.
\<close>

definition EnqueueRelease :: "'a CommitQueueProcessor \<Rightarrow> 'a \<Rightarrow> 'a CommitQueueProcessor \<times> bool" where
  "EnqueueRelease p request =
     (let q = queue p in
      if maxSize q > 0 \<and> int (length (items q)) \<ge> maxSize q then (p, False)
      else
        let items' = items q @ [request];
            m = metrics q;
            m1 = m\<lparr>EnqueueCount := EnqueueCount m + 1\<rparr>;
            m2 = (if int (length items') > MaxQueueLength m1
                  then m1\<lparr>MaxQueueLength := int (length items')\<rparr> else m1)
        in (p\<lparr>queue := q\<lparr>items := items', metrics := m2\<rparr>\<rparr>, True))"

text \<open>\<^verbatim>\<open>BatchEnqueueCommits\<close>: enqueue each request in order, count the accepted ones.\<close>

fun BatchEnqueueCommits :: "'a CommitQueueProcessor \<Rightarrow> 'a list \<Rightarrow> 'a CommitQueueProcessor \<times> int" where
  "BatchEnqueueCommits p [] = (p, 0)"
| "BatchEnqueueCommits p (req # reqs) =
     (case EnqueueCommit p req of
        (p1, ok) \<Rightarrow>
          (case BatchEnqueueCommits p1 reqs of
             (p2, enqueued) \<Rightarrow> (p2, (if ok then 1 else 0) + enqueued)))"

text \<open>
  What a call of \<^verbatim>\<open>dequeueCommits\<close> does in one critical section: it returns
  \<^verbatim>\<open>nil\<close> (the context is cancelled), it suspends in \<^verbatim>\<open>cond.Wait()\<close>, it
  panics in \<^verbatim>\<open>make\<close> (negative length), or it returns a batch.
\<close>

datatype 'a dequeued = ReturnedNil | Waiting | Panicked | Items "'a list"

text \<open>
  \<^verbatim>\<open>dequeueCommits\<close> entered with the mutex held. On an empty queue the loop body
  looks at the context and either returns \<^verbatim>\<open>nil\<close> or waits. Otherwise
  \<^verbatim>\<open>count\<close> is \<^verbatim>\<open>maxCount\<close> capped by the length; \<^verbatim>\<open>make([]T, count)\<close>
  panics for a negative \<^verbatim>\<open>count\<close>, before anything is written.
\<close>

definition dequeueCommits :: "'a CommitQueueProcessor \<Rightarrow> int \<Rightarrow> 'a CommitQueueProcessor \<times> 'a dequeued" where
  "dequeueCommits p maxCount =
     (let q = queue p in
      if length (items q) = 0 then
        (if ctx_done p then (p, ReturnedNil) else (p, Waiting))
      else
        let count = (if maxCount > int (length (items q)) then int (length (items q)) else maxCount)
        in if count < 0 then (p, Panicked)
           else
             let batch = take (nat count) (items q);
                 m = metrics q
             in (p\<lparr>queue := q\<lparr>items := drop (nat count) (items q),
                               metrics := m\<lparr>DequeueCount := DequeueCount m + word_of_int count\<rparr>,
                               processing := processing q + count\<rparr>\<rparr>,
                 Items batch))"

text \<open>
  A waiter that returns from \<^verbatim>\<open>cond.Wait()\<close> holds the mutex again, looks at the
  context first and then goes round the loop, which is the entry code once more.
\<close>

definition dequeueCommits_woken :: "'a CommitQueueProcessor \<Rightarrow> int \<Rightarrow> 'a CommitQueueProcessor \<times> 'a dequeued" where
  "dequeueCommits_woken p maxCount =
     (if ctx_done p then (p, ReturnedNil) else dequeueCommits p maxCount)"

text \<open>
  The operations that touch a queue, as a linearised history: each is one critical
  section. \<^verbatim>\<open>Stop\<close> cancels the context; \<^verbatim>\<open>WorkerDone n\<close> is the worker's
  \<^verbatim>\<open>processing -= len(commits)\<close> after a batch of \<open>n\<close>.
\<close>

datatype 'a queue_op =
    Enqueue 'a
  | BatchEnqueue "'a list"
  | Dequeue int
  | DequeueWoken int
  | WorkerDone int
  | Stop

fun apply_op :: "'a CommitQueueProcessor \<Rightarrow> 'a queue_op \<Rightarrow> 'a CommitQueueProcessor" where
  "apply_op p (Enqueue x) = fst (EnqueueCommit p x)"
| "apply_op p (BatchEnqueue xs) = fst (BatchEnqueueCommits p xs)"
| "apply_op p (Dequeue n) = fst (dequeueCommits p n)"
| "apply_op p (DequeueWoken n) = fst (dequeueCommits_woken p n)"
| "apply_op p (WorkerDone n) = p\<lparr>queue := (queue p)\<lparr>processing := processing (queue p) - n\<rparr>\<rparr>"
| "apply_op p Stop = p\<lparr>ctx_done := True\<rparr>"

fun run :: "'a CommitQueueProcessor \<Rightarrow> 'a queue_op list \<Rightarrow> 'a CommitQueueProcessor" where
  "run p [] = p"
| "run p (x # xs) = run (apply_op p x) xs"

text \<open>The bound of a queue: its length is at most \<^verbatim>\<open>maxSize\<close> when that is positive.\<close>

definition bounded :: "'a CommitQueueProcessor \<Rightarrow> bool" where
  "bounded p \<longleftrightarrow> (maxSize (queue p) > 0 \<longrightarrow> int (length (items (queue p))) \<le> maxSize (queue p))"

section \<open>Batch persister (CommitUsecase.BatchCreate)\<close>

text \<open>
  \<^verbatim>\<open>model.CreateCommitRequest\<close>, and \<^verbatim>\<open>entity.Commit\<close> as the request's three
  fields plus the key \<^verbatim>\<open>ID\<close> that the database assigns.
  \<^verbatim>\<open>model.CommitResponse\<close> has the same four fields as the entity. The
  \<^verbatim>\<open>int64\<close> keys are only compared and copied, so they are \<^typ>\<open>int\<close>.
  Request pointers are taken to be non-nil.
\<close>

record CreateCommitRequest =
  Hash :: string
  Message :: string
  ReleaseID :: int

record Commit = CreateCommitRequest +
  ID :: int

type_synonym CommitResponse = Commit

text \<open>
  The store: the rows of the commits table in insertion order and the next key of its
  sequence. The table is taken without a uniqueness constraint, as the entity declares
  none; what the store refuses is an outcome below.
\<close>

record database =
  commits :: "Commit list"
  next_id :: int

text \<open>
  The outcomes of the storage calls that one call of \<^verbatim>\<open>BatchCreate\<close> makes:
  \<open>None\<close> is success, \<open>Some msg\<close> the error that gorm reports. The error of
  \<^verbatim>\<open>c.DB.Create\<close> is given per position in \<^verbatim>\<open>newRequests\<close>, so it does not
  depend on the order in which the goroutines run.
\<close>

record db_env =
  find_existing_err :: "string option"
  create_in_batches_err :: "string option"
  commit_err :: "string option"
  create_err :: "nat \<Rightarrow> string option"
  find_all_err :: "string option"

datatype batch_error = DbError string | PanicSliceBounds

definition to_entity :: "CreateCommitRequest \<Rightarrow> Commit" where
  "to_entity req = \<lparr> Hash = Hash req, Message = Message req, ReleaseID = ReleaseID req, ID = 0 \<rparr>"

definition to_response :: "Commit \<Rightarrow> CommitResponse" where
  "to_response c = \<lparr> Hash = Hash c, Message = Message c, ReleaseID = ReleaseID c, ID = ID c \<rparr>"

text \<open>An \<^verbatim>\<open>INSERT\<close> of one row: the database assigns the key.\<close>

definition insert_row :: "database \<Rightarrow> Commit \<Rightarrow> database \<times> Commit" where
  "insert_row db c =
     (let c' = c\<lparr>ID := next_id db\<rparr>
      in (db\<lparr>commits := commits db @ [c'], next_id := next_id db + 1\<rparr>, c'))"

fun insert_rows :: "database \<Rightarrow> Commit list \<Rightarrow> database \<times> Commit list" where
  "insert_rows db [] = (db, [])"
| "insert_rows db (c # cs) =
     (case insert_row db c of
        (db1, c') \<Rightarrow> (case insert_rows db1 cs of (db2, cs') \<Rightarrow> (db2, c' # cs')))"

text \<open>
  \<^verbatim>\<open>tx.CreateInBatches(commits, batchSize)\<close> inside the transaction: it fails as a
  whole or adds every row to the transaction's view of the store. The chunk size only
  groups the rows into statements.
\<close>

definition CreateInBatches :: "db_env \<Rightarrow> database \<Rightarrow> Commit list \<Rightarrow> nat \<Rightarrow> string + database \<times> Commit list" where
  "CreateInBatches env tx cs batchSize' =
     (case create_in_batches_err env of
        Some e \<Rightarrow> Inl e
      | None \<Rightarrow> Inr (insert_rows tx cs))"

text \<open>
  \<^verbatim>\<open>Where("hash IN ? AND release_id = ?", hashes, rid).Find(&existingCommits)\<close>
\<close>

definition find_existing :: "database \<Rightarrow> string list \<Rightarrow> int \<Rightarrow> Commit list" where
  "find_existing db hashes rid =
     filter (\<lambda>c. Hash c \<in> set hashes \<and> ReleaseID c = rid) (commits db)"

text \<open>
  The existence query of \<^verbatim>\<open>BatchCreate\<close>, scoped to \<^verbatim>\<open>requests[0].ReleaseID\<close>.
  On an error the code logs a warning and goes on with the slice as it is, which is
  empty. The batch is non-empty where this is called.
\<close>

definition existingCommits :: "db_env \<Rightarrow> database \<Rightarrow> CreateCommitRequest list \<Rightarrow> Commit list" where
  "existingCommits env db requests =
     (case requests of
        [] \<Rightarrow> []
      | r0 # _ \<Rightarrow>
          (case find_existing_err env of
             Some e \<Rightarrow> []
           | None \<Rightarrow> find_existing db (map Hash requests) (ReleaseID r0)))"

text \<open>\<^verbatim>\<open>existingMap\<close>, a Go \<^verbatim>\<open>map[string]bool\<close>: a missing key reads as false.\<close>

definition existingMap :: "Commit list \<Rightarrow> (string \<rightharpoonup> bool)" where
  "existingMap cs = foldl (\<lambda>m c. m(Hash c \<mapsto> True)) Map.empty cs"

definition map_bool :: "(string \<rightharpoonup> bool) \<Rightarrow> string \<Rightarrow> bool" where
  "map_bool m k = (case m k of None \<Rightarrow> False | Some b \<Rightarrow> b)"

definition newRequests :: "db_env \<Rightarrow> database \<Rightarrow> CreateCommitRequest list \<Rightarrow> CreateCommitRequest list" where
  "newRequests env db requests =
     filter (\<lambda>req. \<not> map_bool (existingMap (existingCommits env db requests)) (Hash req)) requests"

text \<open>
  The per-record fallback. Every request gets one goroutine that calls
  \<^verbatim>\<open>c.DB.Create\<close> once (outside any transaction) and then, under the mutex, counts
  a success or an error. The error branch logs \<^verbatim>\<open>commit.Hash[:8]\<close>, which panics
  for a hash shorter than 8 bytes; a panic in a goroutine ends the process. The
  state below records the requests tried so far and the two counters. The goroutines are
  run in slice order here; the first one runs alone in any case, because the loop waits
  for it (\<^verbatim>\<open>i%10 == 0\<close>) before it starts the second.
\<close>

record fallback_state =
  fb_db :: database
  attempted :: "CreateCommitRequest list"
  successCount :: int
  errorCount :: int
  panicked :: bool

fun individual_inserts :: "(nat \<Rightarrow> string option) \<Rightarrow> nat \<Rightarrow> CreateCommitRequest list \<Rightarrow> fallback_state \<Rightarrow> fallback_state" where
  "individual_inserts errs i [] st = st"
| "individual_inserts errs i (req # reqs) st =
     (let st1 = st\<lparr>attempted := attempted st @ [req]\<rparr>
      in case errs i of
           Some e \<Rightarrow>
             (let st2 = st1\<lparr>errorCount := errorCount st1 + 1\<rparr>
              in if length (Hash req) < 8 then st2\<lparr>panicked := True\<rparr>
                 else individual_inserts errs (i + 1) reqs st2)
         | None \<Rightarrow>
             individual_inserts errs (i + 1) reqs
               (st1\<lparr>fb_db := fst (insert_row (fb_db st1) (to_entity req)),
                     successCount := successCount st1 + 1\<rparr>))"

definition fallback :: "db_env \<Rightarrow> database \<Rightarrow> CreateCommitRequest list \<Rightarrow> fallback_state" where
  "fallback env db reqs =
     individual_inserts (create_err env) 0 reqs
       \<lparr> fb_db = db, attempted = [], successCount = 0, errorCount = 0, panicked = False \<rparr>"

text \<open>
  \<^verbatim>\<open>BatchCreate\<close>: the store after the call and what the call returns. A failed
  commit leaves the store as it was (the deferred rollback). After the fallback the
  response is every row of \<^verbatim>\<open>newRequests[0].ReleaseID\<close>.
\<close>

definition BatchCreate :: "db_env \<Rightarrow> database \<Rightarrow> CreateCommitRequest list \<Rightarrow> database \<times> (batch_error + CommitResponse list)" where
  "BatchCreate env db requests =
     (if length requests = 0 then (db, Inr [])
      else
        let new = newRequests env db requests in
        if length new = 0 then (db, Inr [])
        else
          case CreateInBatches env db (map to_entity new) 50 of
            Inl e \<Rightarrow>
              (let st = fallback env db new in
               if panicked st then (fb_db st, Inl PanicSliceBounds)
               else
                 case find_all_err env of
                   Some e' \<Rightarrow> (fb_db st, Inl (DbError e'))
                 | None \<Rightarrow>
                     (fb_db st,
                      Inr (map to_response
                             (filter (\<lambda>c. ReleaseID c = ReleaseID (hd new)) (commits (fb_db st))))))
          | Inr (tx, cs) \<Rightarrow>
              (case commit_err env of
                 Some e \<Rightarrow> (db, Inl (DbError e))
               | None \<Rightarrow> (tx, Inr (map to_response cs))))"

text \<open>The counts that \<^verbatim>\<open>BatchCreate\<close> logs: requests that were filtered out as present.\<close>

definition deduplicated :: "db_env \<Rightarrow> database \<Rightarrow> CreateCommitRequest list \<Rightarrow> nat" where
  "deduplicated env db requests = length requests - length (newRequests env db requests)"

text \<open>A store that answers every call.\<close>

definition healthy :: db_env where
  "healthy = \<lparr> find_existing_err = None, create_in_batches_err = None, commit_err = None,
               create_err = (\<lambda>i. None), find_all_err = None \<rparr>"

text \<open>
  What one call does to the store and to its counters: \<open>written\<close> is the number of
  rows the call adds, \<open>failed\<close> the \<^verbatim>\<open>error_count\<close> that the fallback logs (0 when
  the fallback is not taken).
\<close>

definition written :: "db_env \<Rightarrow> database \<Rightarrow> CreateCommitRequest list \<Rightarrow> nat" where
  "written env db requests =
     length (commits (fst (BatchCreate env db requests))) - length (commits db)"

definition failed :: "db_env \<Rightarrow> database \<Rightarrow> CreateCommitRequest list \<Rightarrow> int" where
  "failed env db requests =
     (let new = newRequests env db requests in
      if length requests = 0 \<or> length new = 0 then 0
      else case create_in_batches_err env of
             None \<Rightarrow> 0
           | Some e \<Rightarrow> errorCount (fallback env db new))"

subsection \<open>Inputs used in the examples\<close>

definition empty_db :: database where
  "empty_db = \<lparr> commits = [], next_id = 1 \<rparr>"

definition req_a :: CreateCommitRequest where
  "req_a = \<lparr> Hash = ''a3f5c2d9e1b7'', Message = ''fix parser'', ReleaseID = 7 \<rparr>"

definition req_b :: CreateCommitRequest where
  "req_b = \<lparr> Hash = ''0b64e8aa91c4'', Message = ''bump version'', ReleaseID = 7 \<rparr>"

definition req_short :: CreateCommitRequest where
  "req_short = \<lparr> Hash = ''abc'', Message = ''typo'', ReleaseID = 7 \<rparr>"

definition req_other :: CreateCommitRequest where
  "req_other = \<lparr> Hash = ''77d1f0c3a2e9'', Message = ''docs'', ReleaseID = 8 \<rparr>"

text \<open>The store refuses the existence query only.\<close>

definition lookup_down :: db_env where
  "lookup_down = healthy\<lparr> find_existing_err := Some ''connection reset'' \<rparr>"

text \<open>
  The store refuses the existence query and then, as PostgreSQL does inside a transaction
  after a failed statement, the batch insert of the same transaction; single inserts
  outside the transaction succeed.
\<close>

definition lookup_down_tx_aborted :: db_env where
  "lookup_down_tx_aborted =
     healthy\<lparr> find_existing_err := Some ''statement timeout'',
              create_in_batches_err := Some ''current transaction is aborted'' \<rparr>"

text \<open>The batch insert fails and so does the single insert of the first new request.\<close>

definition batch_and_first_fail :: db_env where
  "batch_and_first_fail =
     healthy\<lparr> create_in_batches_err := Some ''deadlock'',
              create_err := (\<lambda>i. if i = 0 then Some ''deadlock'' else None) \<rparr>"

text \<open>The store after \<open>req_a\<close> and \<open>req_b\<close> were written to the empty store.\<close>

definition stored_ab :: database where
  "stored_ab =
     \<lparr> commits = [\<lparr> Hash = ''a3f5c2d9e1b7'', Message = ''fix parser'', ReleaseID = 7, ID = 1 \<rparr>,
                  \<lparr> Hash = ''0b64e8aa91c4'', Message = ''bump version'', ReleaseID = 7, ID = 2 \<rparr>],
       next_id = 3 \<rparr>"

text \<open>A store that holds the commit of \<open>req_other\<close> under its release 8.\<close>

definition stored_other :: database where
  "stored_other =
     \<lparr> commits = [\<lparr> Hash = ''77d1f0c3a2e9'', Message = ''docs'', ReleaseID = 8, ID = 1 \<rparr>],
       next_id = 2 \<rparr>"

section \<open>Stage coordinator (CrawlingCoordinator)\<close>

text \<open>
  The caches hold decoded JSON (\<^verbatim>\<open>interface{}\<close>); \<open>None\<close> is Go's \<^verbatim>\<open>nil\<close>,
  which is also what a body \<^verbatim>\<open>null\<close> decodes to. The three circuit breakers and the
  HTTP client act only inside \<^verbatim>\<open>CrawlRepos\<close>, \<^verbatim>\<open>CrawlReleases\<close> and
  \<^verbatim>\<open>CrawlCommits\<close>, whose results are given from outside below.
\<close>

record 'd CrawlingCoordinator =
  repoCache :: "'d option"
  releaseCache :: "'d option"
  commitCache :: "'d option"
  repoNoChangeCount :: int
  releaseNoChangeCount :: int
  commitNoChangeCount :: int
  repoPaused :: bool
  releasePaused :: bool
  commitPaused :: bool
  stabilityThreshold :: int

definition NewCrawlingCoordinator :: "'d CrawlingCoordinator" where
  "NewCrawlingCoordinator =
     \<lparr> repoCache = None, releaseCache = None, commitCache = None,
       repoNoChangeCount = 0, releaseNoChangeCount = 0, commitNoChangeCount = 0,
       repoPaused = False, releasePaused = False, commitPaused = False,
       stabilityThreshold = 3 \<rparr>"

text \<open>
  \<^verbatim>\<open>hasDataChanged\<close>: a \<^verbatim>\<open>nil\<close> previous value always counts as a change;
  otherwise the two \<^verbatim>\<open>json.Marshal\<close> texts are compared. \<open>marshal\<close> is the
  encoder on non-nil data; \<^verbatim>\<open>nil\<close> encodes as \<^verbatim>\<open>null\<close>.
\<close>

definition json_text :: "('d \<Rightarrow> string) \<Rightarrow> 'd option \<Rightarrow> string" where
  "json_text marshal v = (case v of None \<Rightarrow> ''null'' | Some d \<Rightarrow> marshal d)"

definition hasDataChanged :: "('d \<Rightarrow> string) \<Rightarrow> 'd option \<Rightarrow> 'd option \<Rightarrow> bool" where
  "hasDataChanged marshal previous current =
     (if previous = None then True
      else json_text marshal previous \<noteq> json_text marshal current)"

text \<open>
  What the three guarded calls of one cycle return if they are made: \<open>Inl\<close> an error
  (of the endpoint or of the open circuit breaker), \<open>Inr\<close> the decoded payload.
\<close>

record 'd cycle_env =
  repo_result :: "string + 'd option"
  release_result :: "string + 'd option"
  commit_result :: "string + 'd option"

datatype stage = Repos | Releases | Commits

text \<open>
  Step 1 of \<^verbatim>\<open>CrawlAll\<close>: the repositories are fetched only while there is no
  cached result. The step returns the state, \<^verbatim>\<open>repoChanged\<close> and the calls made.
\<close>

definition step1 :: "'d cycle_env \<Rightarrow> 'd CrawlingCoordinator \<Rightarrow> 'd CrawlingCoordinator \<times> bool \<times> stage list" where
  "step1 env c =
     (if repoCache c = None then
        (case repo_result env of
           Inl err \<Rightarrow> (c, False, [Repos])
         | Inr repoData \<Rightarrow>
             (c\<lparr>repoCache := repoData, releasePaused := False, releaseNoChangeCount := 0\<rparr>,
              True, [Repos]))
      else (c, False, []))"

text \<open>Step 2: the releases, gated by \<^verbatim>\<open>shouldCrawl\<close>. Returns \<^verbatim>\<open>releaseChanged\<close>.\<close>

definition step2 :: "('d \<Rightarrow> string) \<Rightarrow> 'd cycle_env \<Rightarrow> bool \<Rightarrow> 'd CrawlingCoordinator \<Rightarrow> 'd CrawlingCoordinator \<times> bool \<times> stage list" where
  "step2 marshal env repoChanged c =
     (let shouldCrawl = ((repoChanged \<or> releaseCache c = None) \<and> \<not> releasePaused c) in
      if \<not> shouldCrawl then (c, False, [])
      else
        case release_result env of
          Inl err \<Rightarrow> (c, False, [Releases])
        | Inr releaseData \<Rightarrow>
            if hasDataChanged marshal (releaseCache c) releaseData then
              (c\<lparr>releaseCache := releaseData, releaseNoChangeCount := 0,
                 commitPaused := False, commitNoChangeCount := 0\<rparr>, True, [Releases])
            else
              (let c1 = c\<lparr>releaseNoChangeCount := releaseNoChangeCount c + 1\<rparr>;
                   c2 = (if releaseNoChangeCount c1 \<ge> stabilityThreshold c1
                         then c1\<lparr>releasePaused := True\<rparr> else c1)
               in (c2, False, [Releases])))"

text \<open>Step 3: the commits, gated in the same way by \<^verbatim>\<open>releaseChanged\<close>.\<close>

definition step3 :: "('d \<Rightarrow> string) \<Rightarrow> 'd cycle_env \<Rightarrow> bool \<Rightarrow> 'd CrawlingCoordinator \<Rightarrow> 'd CrawlingCoordinator \<times> stage list" where
  "step3 marshal env releaseChanged c =
     (let shouldCrawl = ((releaseChanged \<or> commitCache c = None) \<and> \<not> commitPaused c) in
      if \<not> shouldCrawl then (c, [])
      else
        case commit_result env of
          Inl err \<Rightarrow> (c, [Commits])
        | Inr commitData \<Rightarrow>
            if hasDataChanged marshal (commitCache c) commitData then
              (c\<lparr>commitCache := commitData, commitNoChangeCount := 0\<rparr>, [Commits])
            else
              (let c1 = c\<lparr>commitNoChangeCount := commitNoChangeCount c + 1\<rparr>;
                   c2 = (if commitNoChangeCount c1 \<ge> stabilityThreshold c1
                         then c1\<lparr>commitPaused := True\<rparr> else c1)
               in (c2, [Commits])))"

text \<open>
  \<^verbatim>\<open>CrawlAll\<close>: every goroutine is joined before the next step starts, so the three
  steps run one after the other. The result is the state and the guarded calls made, in
  order.
\<close>

definition CrawlAll :: "('d \<Rightarrow> string) \<Rightarrow> 'd cycle_env \<Rightarrow> 'd CrawlingCoordinator \<Rightarrow> 'd CrawlingCoordinator \<times> stage list" where
  "CrawlAll marshal env c =
     (case step1 env c of
        (c1, repoChanged, calls1) \<Rightarrow>
          (case step2 marshal env repoChanged c1 of
             (c2, releaseChanged, calls2) \<Rightarrow>
               (case step3 marshal env releaseChanged c2 of
                  (c3, calls3) \<Rightarrow> (c3, calls1 @ calls2 @ calls3))))"

definition ForceReactivateAll :: "'d CrawlingCoordinator \<Rightarrow> 'd CrawlingCoordinator" where
  "ForceReactivateAll c =
     c\<lparr>repoCache := None, releasePaused := False, commitPaused := False,
       repoNoChangeCount := 0, releaseNoChangeCount := 0, commitNoChangeCount := 0\<rparr>"

definition SetStabilityThreshold :: "int \<Rightarrow> 'd CrawlingCoordinator \<Rightarrow> 'd CrawlingCoordinator" where
  "SetStabilityThreshold threshold c =
     c\<lparr>stabilityThreshold := (if threshold < 1 then 1 else threshold)\<rparr>"

text \<open>
  \<^verbatim>\<open>StartPeriodicCrawling\<close>: each turn of the loop waits in \<^verbatim>\<open>select\<close> for the
  ticker or for the stop channel. The events are what the \<^verbatim>\<open>select\<close> statements
  receive, in order; a tick carries the results of the cycle it starts. The ticker's
  first tick is sent one interval after \<^verbatim>\<open>time.NewTicker\<close>. The loop gives the
  state, the calls of every cycle it ran, and whether it has returned; with the events
  used up it is still waiting.
\<close>

datatype 'd event = Tick "'d cycle_env" | StopSignal

fun periodic_loop :: "('d \<Rightarrow> string) \<Rightarrow> 'd CrawlingCoordinator \<Rightarrow> 'd event list \<Rightarrow> 'd CrawlingCoordinator \<times> stage list list \<times> bool" where
  "periodic_loop marshal c [] = (c, [], False)"
| "periodic_loop marshal c (StopSignal # es) = (c, [], True)"
| "periodic_loop marshal c (Tick env # es) =
     (case CrawlAll marshal env c of
        (c1, calls) \<Rightarrow>
          (case periodic_loop marshal c1 es of
             (c2, cycles, returned) \<Rightarrow> (c2, calls # cycles, returned)))"

text \<open>\<^verbatim>\<open>time.NewTicker\<close> panics for an interval that is not positive.\<close>

definition StartPeriodicCrawling :: "('d \<Rightarrow> string) \<Rightarrow> int \<Rightarrow> 'd event list \<Rightarrow> 'd CrawlingCoordinator \<Rightarrow> ('d CrawlingCoordinator \<times> stage list list \<times> bool) option" where
  "StartPeriodicCrawling marshal interval events c =
     (if interval \<le> 0 then None else Some (periodic_loop marshal c events))"

text \<open>
  \<^verbatim>\<open>startCircuitBreakerCoordinator\<close> (main.go): a new coordinator, one cycle at
  once ("Initial crawl to populate caches"), then the periodic loop. \<open>first\<close> holds the
  results of the initial cycle, \<open>interval\<close> is in seconds.
\<close>

definition startCircuitBreakerCoordinator :: "('d \<Rightarrow> string) \<Rightarrow> int \<Rightarrow> 'd cycle_env \<Rightarrow> 'd event list \<Rightarrow> ('d CrawlingCoordinator \<times> stage list list \<times> bool) option" where
  "startCircuitBreakerCoordinator marshal interval first events =
     (case CrawlAll marshal first NewCrawlingCoordinator of
        (c1, calls) \<Rightarrow>
          (case StartPeriodicCrawling marshal (interval * 1000000000) events c1 of
             None \<Rightarrow> None
           | Some (c2, cycles, returned) \<Rightarrow> Some (c2, calls # cycles, returned)))"

subsection \<open>Coordinator states used in the examples\<close>

text \<open>Payloads are written as their JSON text, which is then its own encoding.\<close>

text \<open>Every endpoint answers with a small payload.\<close>

definition same_again :: "string cycle_env" where
  "same_again =
     \<lparr> repo_result = Inr (Some ''[5000]''),
       release_result = Inr (Some ''[120]''),
       commit_result = Inr (Some ''[900]'') \<rparr>"

text \<open>
  The state that one cycle on a new coordinator leaves when every endpoint answers as in
  \<open>same_again\<close>: all three results cached, nothing paused.
\<close>

definition populated :: "string CrawlingCoordinator" where
  "populated =
     \<lparr> repoCache = Some ''[5000]'', releaseCache = Some ''[120]'',
       commitCache = Some ''[900]'',
       repoNoChangeCount = 0, releaseNoChangeCount = 0, commitNoChangeCount = 0,
       repoPaused = False, releasePaused = False, commitPaused = False,
       stabilityThreshold = 3 \<rparr>"

section \<open>Circuit breaker (breaker\_utils.go over the gobreaker package)\<close>

text \<open>
  \<^verbatim>\<open>gobreaker.Counts\<close> as far as the repository and the specification use it. The
  fields are \<^verbatim>\<open>uint32\<close> counters that are cleared with every window, far from
  wrapping around.
\<close>

record Counts =
  Requests :: nat
  TotalFailures :: nat
  ConsecutiveSuccesses :: nat

text \<open>
  \<^verbatim>\<open>ReadyToTrip\<close> as \<^verbatim>\<open>NewCircuitBreaker\<close> writes it. The quotient is a
  \<^verbatim>\<open>float64\<close> in the code; for counters below \<open>2^32\<close> a quotient that is not
  \<open>3/5\<close> differs from it by more than \<open>10^-11\<close>, so the comparison with the
  \<^verbatim>\<open>float64\<close> \<open>0.6\<close> agrees with the exact one. With no request the quotient is
  not a number and the first conjunct is false.
\<close>

definition ReadyToTrip :: "Counts \<Rightarrow> bool" where
  "ReadyToTrip counts =
     (let failureRatio = (of_nat (TotalFailures counts) / of_nat (Requests counts) :: rat)
      in Requests counts \<ge> 3 \<and> failureRatio \<ge> 6 / 10)"

text \<open>
  The settings of \<^verbatim>\<open>NewCircuitBreaker\<close>; durations are in nanoseconds. The
  fifth setting is \<^verbatim>\<open>ReadyToTrip\<close> above.
\<close>

definition Second :: int where
  "Second = 1000000000"

record Settings =
  Name :: string
  MaxRequests :: nat
  Interval :: int
  Timeout :: int

definition breaker_settings :: "string \<Rightarrow> Settings" where
  "breaker_settings name =
     \<lparr> Name = name, MaxRequests = 3, Interval = 10 * Second, Timeout = 30 * Second \<rparr>"

text \<open>
  Modelled from the spec: the state of \<^verbatim>\<open>gobreaker.CircuitBreaker\<close>, a package
  that is not among the sources. The specification gives a breaker one of three states,
  the rolling counts of the current interval window and the time it opened;
  \<open>windowEnd\<close> is the boundary of the current window.
\<close>

datatype CircuitState = Closed | Open | HalfOpen

record CircuitBreaker =
  settings :: Settings
  cb_state :: CircuitState
  counts :: Counts
  openedAt :: int
  windowEnd :: int

definition no_counts :: Counts where
  "no_counts = \<lparr> Requests = 0, TotalFailures = 0, ConsecutiveSuccesses = 0 \<rparr>"

text \<open>
  Modelled from the spec: \<^verbatim>\<open>gobreaker.NewCircuitBreaker\<close>, missing from the
  sources. A breaker starts Closed with empty counts; its first window starts at the
  time \<open>now\<close> of its construction.
\<close>

definition gobreaker_NewCircuitBreaker :: "Settings \<Rightarrow> int \<Rightarrow> CircuitBreaker" where
  "gobreaker_NewCircuitBreaker st now =
     \<lparr> settings = st, cb_state = Closed, counts = no_counts, openedAt = 0,
       windowEnd = now + Interval st \<rparr>"

definition NewCircuitBreaker :: "string \<Rightarrow> int \<Rightarrow> CircuitBreaker" where
  "NewCircuitBreaker name now = gobreaker_NewCircuitBreaker (breaker_settings name) now"

text \<open>
  Modelled from the spec: how the breaker records the outcome of a call that went
  through, missing from the sources with the package. The counts are updated and the
  transition rules applied: Closed opens when \<^verbatim>\<open>ReadyToTrip\<close> holds of the counts;
  HalfOpen goes back to Open on a failure and to Closed after \<^verbatim>\<open>MaxRequests\<close>
  consecutive successes; the counts are cleared on every change of state.
\<close>

definition record_outcome :: "CircuitBreaker \<Rightarrow> int \<Rightarrow> bool \<Rightarrow> CircuitBreaker" where
  "record_outcome b now failure =
     (let k = counts b;
          k' = \<lparr> Requests = Requests k + 1,
                 TotalFailures = TotalFailures k + (if failure then 1 else 0),
                 ConsecutiveSuccesses = (if failure then 0 else ConsecutiveSuccesses k + 1) \<rparr>
      in case cb_state b of
           Closed \<Rightarrow>
             (if ReadyToTrip k' then b\<lparr>cb_state := Open, counts := no_counts, openedAt := now\<rparr>
              else b\<lparr>counts := k'\<rparr>)
         | HalfOpen \<Rightarrow>
             (if failure then b\<lparr>cb_state := Open, counts := no_counts, openedAt := now\<rparr>
              else if ConsecutiveSuccesses k' \<ge> MaxRequests (settings b)
                   then b\<lparr>cb_state := Closed, counts := no_counts,
                          windowEnd := now + Interval (settings b)\<rparr>
              else b\<lparr>counts := k'\<rparr>)
         | Open \<Rightarrow> b\<lparr>counts := k'\<rparr>)"

text \<open>
  Modelled from the spec: the two errors with which the missing package refuses a call,
  the "circuit open" error of the specification and the refusal of a trial call beyond
  the probe limit.
\<close>

definition ErrOpenState :: string where
  "ErrOpenState = ''circuit open''"

definition ErrTooManyRequests :: string where
  "ErrTooManyRequests = ''too many requests''"

text \<open>
  Modelled from the spec: \<^verbatim>\<open>gobreaker.CircuitBreaker.Execute\<close>, missing from the
  sources. \<open>now\<close> is the time of the call and \<open>result\<close> what the wrapped function
  returns if it is invoked; the third component of the outcome tells whether it was
  invoked. Open before \<^verbatim>\<open>openedAt + Timeout\<close>: fail fast with the circuit-open
  error. Open after that: HalfOpen, and the call goes through as a probe. HalfOpen lets
  at most \<^verbatim>\<open>MaxRequests\<close> trial calls through. Closed clears its counts at a
  window boundary. A call that goes through has its outcome recorded.
\<close>

definition gobreaker_Execute :: "CircuitBreaker \<Rightarrow> int \<Rightarrow> string + 'r \<Rightarrow> CircuitBreaker \<times> (string + 'r) \<times> bool" where
  "gobreaker_Execute b now result =
     (if cb_state b = Open \<and> now < openedAt b + Timeout (settings b)
      then (b, Inl ErrOpenState, False)
      else
        let b1 = (if cb_state b = Open then b\<lparr>cb_state := HalfOpen, counts := no_counts\<rparr>
                  else if cb_state b = Closed \<and> windowEnd b \<le> now
                       then b\<lparr>counts := no_counts, windowEnd := now + Interval (settings b)\<rparr>
                  else b)
        in if cb_state b1 = HalfOpen \<and> Requests (counts b1) \<ge> MaxRequests (settings b1)
           then (b1, Inl ErrTooManyRequests, False)
           else (record_outcome b1 now (isl result), result, True))"

text \<open>\<^verbatim>\<open>CircuitBreakerWrapper.Execute\<close> hands the function to the breaker.\<close>

definition Execute :: "CircuitBreaker \<Rightarrow> int \<Rightarrow> string + 'r \<Rightarrow> CircuitBreaker \<times> (string + 'r) \<times> bool" where
  "Execute cbw now result = gobreaker_Execute cbw now result"

text \<open>
  A sequence of calls through one breaker, each with its time and with what its wrapped
  function returns if it is invoked.
\<close>

fun Execute_calls :: "CircuitBreaker \<Rightarrow> (int \<times> (string + 'r)) list \<Rightarrow> CircuitBreaker" where
  "Execute_calls cbw [] = cbw"
| "Execute_calls cbw ((now, result) # calls) = Execute_calls (fst (Execute cbw now result)) calls"

section \<open>Queue: bound and FIFO order\<close>

lemma EnqueueCommit_maxSize: "maxSize (queue (fst (EnqueueCommit p x))) = maxSize (queue p)"
  by (simp add: EnqueueCommit_def Let_def)

lemma EnqueueCommit_bounded: "bounded p \<Longrightarrow> bounded (fst (EnqueueCommit p x))"
  by (auto simp: EnqueueCommit_def bounded_def Let_def)

lemma BatchEnqueueCommits_Cons_fst:
  "fst (BatchEnqueueCommits p (x # xs)) = fst (BatchEnqueueCommits (fst (EnqueueCommit p x)) xs)"
  by (cases "EnqueueCommit p x"; cases "BatchEnqueueCommits (fst (EnqueueCommit p x)) xs") simp

lemma BatchEnqueueCommits_maxSize:
  "maxSize (queue (fst (BatchEnqueueCommits p xs))) = maxSize (queue p)"
proof (induction xs arbitrary: p)
  case Nil
  show ?case by simp
next
  case (Cons x xs)
  have "maxSize (queue (fst (BatchEnqueueCommits (fst (EnqueueCommit p x)) xs))) = maxSize (queue p)"
    by (simp add: Cons.IH EnqueueCommit_maxSize)
  then show ?case by (simp only: BatchEnqueueCommits_Cons_fst)
qed

lemma BatchEnqueueCommits_bounded:
  "bounded p \<Longrightarrow> bounded (fst (BatchEnqueueCommits p xs))"
proof (induction xs arbitrary: p)
  case Nil
  then show ?case by simp
next
  case (Cons x xs)
  have "bounded (fst (BatchEnqueueCommits (fst (EnqueueCommit p x)) xs))"
    by (rule Cons.IH) (rule EnqueueCommit_bounded [OF Cons.prems])
  then show ?case by (simp only: BatchEnqueueCommits_Cons_fst)
qed

lemma dequeueCommits_maxSize: "maxSize (queue (fst (dequeueCommits p n))) = maxSize (queue p)"
  by (simp add: dequeueCommits_def Let_def)

lemma dequeueCommits_bounded: "bounded p \<Longrightarrow> bounded (fst (dequeueCommits p n))"
  by (auto simp: dequeueCommits_def bounded_def Let_def)

lemma apply_op_maxSize: "maxSize (queue (apply_op p x)) = maxSize (queue p)"
  by (cases x)
     (simp_all add: EnqueueCommit_maxSize BatchEnqueueCommits_maxSize dequeueCommits_maxSize
        dequeueCommits_woken_def)

lemma apply_op_bounded: "bounded p \<Longrightarrow> bounded (apply_op p x)"
  by (cases x)
     (simp_all add: EnqueueCommit_bounded BatchEnqueueCommits_bounded dequeueCommits_bounded
        dequeueCommits_woken_def, simp_all add: bounded_def)

lemma run_maxSize: "maxSize (queue (run p xs)) = maxSize (queue p)"
  by (induction xs arbitrary: p) (simp_all add: apply_op_maxSize)

lemma run_bounded: "bounded p \<Longrightarrow> bounded (run p xs)"
  by (induction xs arbitrary: p) (simp_all add: apply_op_bounded)

lemma New_bounded: "bounded (NewCommitQueueProcessor m w b)"
  by (simp add: bounded_def NewCommitQueueProcessor_def)

lemma New_maxSize: "maxSize (queue (NewCommitQueueProcessor m w b)) = m"
  by (simp add: NewCommitQueueProcessor_def)

text \<open>
  C1 (backpressure invariant). From a new queue with a positive \<^verbatim>\<open>maxSize\<close>, no
  history of enqueues, batch enqueues, dequeues, wake-ups, worker completions and
  cancellation makes the queue longer than \<^verbatim>\<open>maxSize\<close>. In any state whose length
  equals a positive \<^verbatim>\<open>maxSize\<close>, enqueue returns false and the whole processor state
  (contents, length, counters) is unchanged. With \<^verbatim>\<open>maxSize\<close> at most 0, enqueue
  appends the request and returns true. The release queue's enqueue is the same function.
\<close>

theorem backpressure_invariant:
  "(0 < m \<longrightarrow> int (length (items (queue (run (NewCommitQueueProcessor m w b) ops)))) \<le> m)
   \<and> (0 < maxSize (queue p) \<and> int (length (items (queue p))) = maxSize (queue p)
        \<longrightarrow> EnqueueCommit p x = (p, False))
   \<and> (maxSize (queue p) \<le> 0
        \<longrightarrow> snd (EnqueueCommit p x) = True
            \<and> items (queue (fst (EnqueueCommit p x))) = items (queue p) @ [x])
   \<and> EnqueueRelease p x = EnqueueCommit p x"
proof (intro conjI impI)
  assume pos: "0 < m"
  have "bounded (run (NewCommitQueueProcessor m w b) ops)"
    by (rule run_bounded [OF New_bounded])
  moreover have "maxSize (queue (run (NewCommitQueueProcessor m w b) ops)) = m"
    by (simp add: run_maxSize New_maxSize)
  ultimately show "int (length (items (queue (run (NewCommitQueueProcessor m w b) ops)))) \<le> m"
    using pos by (simp add: bounded_def)
next
  assume "0 < maxSize (queue p) \<and> int (length (items (queue p))) = maxSize (queue p)"
  then show "EnqueueCommit p x = (p, False)"
    by (simp add: EnqueueCommit_def Let_def)
next
  assume "maxSize (queue p) \<le> 0"
  then show "snd (EnqueueCommit p x) = True"
    by (simp add: EnqueueCommit_def Let_def)
next
  assume "maxSize (queue p) \<le> 0"
  then show "items (queue (fst (EnqueueCommit p x))) = items (queue p) @ [x]"
    by (simp add: EnqueueCommit_def Let_def)
next
  show "EnqueueRelease p x = EnqueueCommit p x"
    by (simp add: EnqueueRelease_def EnqueueCommit_def)
qed

theorem backpressure_invariant_witness:
  "0 < (2::int)
   \<and> int (length (items (queue (run (NewCommitQueueProcessor 2 4 50)
        [Enqueue (1::nat), Enqueue 2, Enqueue 3, Dequeue 1, Enqueue 4, Enqueue 5])))) \<le> 2
   \<and> 0 < maxSize (queue (run (NewCommitQueueProcessor 2 4 50) [Enqueue (1::nat), Enqueue 2]))
   \<and> int (length (items (queue (run (NewCommitQueueProcessor 2 4 50) [Enqueue (1::nat), Enqueue 2])))) = 2
   \<and> EnqueueCommit (run (NewCommitQueueProcessor 2 4 50) [Enqueue (1::nat), Enqueue 2]) 3
       = (run (NewCommitQueueProcessor 2 4 50) [Enqueue 1, Enqueue 2], False)
   \<and> maxSize (queue (NewCommitQueueProcessor 0 4 50 :: nat CommitQueueProcessor)) \<le> 0
   \<and> snd (EnqueueCommit (NewCommitQueueProcessor 0 4 50) (7::nat)) = True
   \<and> items (queue (fst (EnqueueCommit (NewCommitQueueProcessor 0 4 50) (7::nat)))) = [] @ [7]"
proof -
  let ?full = "run (NewCommitQueueProcessor 2 4 50) [Enqueue (1::nat), Enqueue 2]"
  let ?free = "NewCommitQueueProcessor 0 4 50 :: nat CommitQueueProcessor"
  have h0: "0 < (2::int)" by simp
  have h1: "0 < maxSize (queue ?full) \<and> int (length (items (queue ?full))) = maxSize (queue ?full)"
    by (simp add: NewCommitQueueProcessor_def EnqueueCommit_def Let_def)
  have m: "maxSize (queue ?full) = 2"
    by (simp add: NewCommitQueueProcessor_def EnqueueCommit_def Let_def)
  have h2: "maxSize (queue ?free) \<le> 0"
    by (simp add: NewCommitQueueProcessor_def)
  have e: "items (queue ?free) = []"
    by (simp add: NewCommitQueueProcessor_def)
  note t1 = backpressure_invariant [of 2 4 50
      "[Enqueue (1::nat), Enqueue 2, Enqueue 3, Dequeue 1, Enqueue 4, Enqueue 5]" ?full 3]
  note t2 = backpressure_invariant [of 2 4 50 "[]" ?free "7::nat"]
  have c1: "int (length (items (queue (run (NewCommitQueueProcessor 2 4 50)
        [Enqueue (1::nat), Enqueue 2, Enqueue 3, Dequeue 1, Enqueue 4, Enqueue 5])))) \<le> 2"
    using t1 h0 by blast
  have c2: "EnqueueCommit ?full 3 = (?full, False)"
    using t1 h1 by blast
  have c3: "snd (EnqueueCommit ?free 7) = True
     \<and> items (queue (fst (EnqueueCommit ?free 7))) = items (queue ?free) @ [7]"
    using t2 h2 by blast
  from h0 c1 h1 m c2 h2 c3 e show ?thesis by metis
qed

text \<open>
  C9 (FIFO batch dequeue). A call of \<^verbatim>\<open>dequeueCommits\<close> that returns items was made
  on a non-empty queue; it returns exactly \<open>min maxCount (length of the queue)\<close> items,
  they are the front of the queue in queue order and the rest of the queue stays behind
  them unchanged, and \<^verbatim>\<open>DequeueCount\<close> (an \<^verbatim>\<open>int64\<close>) and \<^verbatim>\<open>processing\<close>
  grow by that number in the same critical section. On a non-empty queue every call
  with a non-negative \<^verbatim>\<open>maxCount\<close> does return items, and a woken waiter that
  returns items behaves as a fresh call.
\<close>

theorem fifo_batch_dequeue:
  "(dequeueCommits p n = (p', Items xs) \<longrightarrow>
      items (queue p) \<noteq> []
      \<and> int (length xs) = min n (int (length (items (queue p))))
      \<and> items (queue p) = xs @ items (queue p')
      \<and> DequeueCount (metrics (queue p')) = DequeueCount (metrics (queue p)) + word_of_int (int (length xs))
      \<and> processing (queue p') = processing (queue p) + int (length xs))
   \<and> (items (queue p) \<noteq> [] \<and> 0 \<le> n \<longrightarrow> (\<exists>q ys. dequeueCommits p n = (q, Items ys)))
   \<and> (dequeueCommits_woken p n = (p', Items xs) \<longrightarrow> dequeueCommits p n = (p', Items xs))"
proof (intro conjI impI)
  assume "dequeueCommits_woken p n = (p', Items xs)"
  then show "dequeueCommits p n = (p', Items xs)"
    by (simp add: dequeueCommits_woken_def split: if_splits)
next
  assume "items (queue p) \<noteq> [] \<and> 0 \<le> n"
  then show "\<exists>q ys. dequeueCommits p n = (q, Items ys)"
    by (simp add: dequeueCommits_def Let_def)
next
  assume r: "dequeueCommits p n = (p', Items xs)"
  define k where "k = (if n > int (length (items (queue p))) then int (length (items (queue p))) else n)"
  from r have ne: "items (queue p) \<noteq> []"
    by (auto simp: dequeueCommits_def Let_def split: if_splits)
  from r ne have k0: "0 \<le> k"
    by (auto simp: dequeueCommits_def Let_def k_def split: if_splits)
  from r ne k0 have xs: "xs = take (nat k) (items (queue p))"
    by (auto simp: dequeueCommits_def Let_def k_def split: if_splits)
  from r ne k0 have p': "p' = p\<lparr>queue := (queue p)\<lparr>items := drop (nat k) (items (queue p)),
        metrics := (metrics (queue p))\<lparr>DequeueCount := DequeueCount (metrics (queue p)) + word_of_int k\<rparr>,
        processing := processing (queue p) + k\<rparr>\<rparr>"
    by (auto simp: dequeueCommits_def Let_def k_def split: if_splits)
  have "k \<le> int (length (items (queue p)))"
    by (simp add: k_def)
  then have len: "int (length xs) = k"
    using k0 by (simp add: xs)
  show "items (queue p) \<noteq> []" by (rule ne)
  show "int (length xs) = min n (int (length (items (queue p))))"
    using len by (simp add: k_def min_def)
  show "items (queue p) = xs @ items (queue p')"
    by (simp add: xs p')
  show "DequeueCount (metrics (queue p')) = DequeueCount (metrics (queue p)) + word_of_int (int (length xs))"
    by (simp add: p' len)
  show "processing (queue p') = processing (queue p) + int (length xs)"
    by (simp add: p' len)
qed

theorem fifo_batch_dequeue_witness:
  "dequeueCommits (run (NewCommitQueueProcessor 5 4 50) [Enqueue (10::nat), Enqueue 20, Enqueue 30]) 2
     = (run (NewCommitQueueProcessor 5 4 50) [Enqueue 10, Enqueue 20, Enqueue 30, Dequeue 2], Items [10, 20])
   \<and> items (queue (run (NewCommitQueueProcessor 5 4 50) [Enqueue (10::nat), Enqueue 20, Enqueue 30]))
       = [10, 20] @ items (queue (run (NewCommitQueueProcessor 5 4 50)
             [Enqueue 10, Enqueue 20, Enqueue 30, Dequeue 2]))
   \<and> int (length [10::nat, 20]) = min 2 3
   \<and> processing (queue (run (NewCommitQueueProcessor 5 4 50)
             [Enqueue (10::nat), Enqueue 20, Enqueue 30, Dequeue 2])) = 2"
proof -
  let ?p = "run (NewCommitQueueProcessor 5 4 50) [Enqueue (10::nat), Enqueue 20, Enqueue 30]"
  let ?p' = "run (NewCommitQueueProcessor 5 4 50) [Enqueue (10::nat), Enqueue 20, Enqueue 30, Dequeue 2]"
  have h: "dequeueCommits ?p 2 = (?p', Items [10, 20])"
    by (simp add: NewCommitQueueProcessor_def EnqueueCommit_def dequeueCommits_def Let_def)
  have l: "int (length (items (queue ?p))) = 3" and z: "processing (queue ?p) = 0"
    by (simp_all add: NewCommitQueueProcessor_def EnqueueCommit_def Let_def)
  note t = fifo_batch_dequeue [of ?p 2 ?p' "[10, 20]"]
  have c: "int (length [10::nat, 20]) = min 2 (int (length (items (queue ?p))))
      \<and> items (queue ?p) = [10, 20] @ items (queue ?p')
      \<and> processing (queue ?p') = processing (queue ?p) + int (length [10::nat, 20])"
    using t h by blast
  from h c l z show ?thesis by simp
qed

section \<open>Batch persister: deduplication and fallback\<close>

lemma existingMap_foldl:
  "foldl (\<lambda>m c. m(Hash c \<mapsto> True)) m0 cs h
     = (if h \<in> Hash ` set cs then Some True else m0 h)"
  by (induction cs arbitrary: m0) auto

lemma map_bool_existingMap: "map_bool (existingMap cs) h \<longleftrightarrow> h \<in> Hash ` set cs"
  by (simp add: map_bool_def existingMap_def existingMap_foldl)

lemma newRequests_filter:
  "newRequests env db requests
     = filter (\<lambda>req. Hash req \<notin> Hash ` set (existingCommits env db requests)) requests"
  by (simp add: newRequests_def map_bool_existingMap)

lemma existingCommits_failed:
  "find_existing_err env = Some e \<Longrightarrow> existingCommits env db requests = []"
  by (simp add: existingCommits_def split: list.splits)

lemma newRequests_failed:
  "find_existing_err env = Some e \<Longrightarrow> newRequests env db requests = requests"
  by (simp add: newRequests_filter existingCommits_failed)

lemma insert_rows_Cons:
  "insert_rows db (c # cs) =
     (fst (insert_rows (db\<lparr>commits := commits db @ [c\<lparr>ID := next_id db\<rparr>], next_id := next_id db + 1\<rparr>) cs),
      c\<lparr>ID := next_id db\<rparr> #
        snd (insert_rows (db\<lparr>commits := commits db @ [c\<lparr>ID := next_id db\<rparr>], next_id := next_id db + 1\<rparr>) cs))"
  by (simp add: insert_row_def Let_def split: prod.splits)

lemma insert_rows_fst:
  "commits (fst (insert_rows db cs)) = commits db @ snd (insert_rows db cs)"
proof (induction cs arbitrary: db)
  case Nil
  show ?case by simp
next
  case (Cons c cs)
  show ?case by (simp only: insert_rows_Cons fst_conv snd_conv Cons.IH) simp
qed

lemma insert_rows_Hash: "map Hash (snd (insert_rows db cs)) = map Hash cs"
proof (induction cs arbitrary: db)
  case Nil
  show ?case by simp
next
  case (Cons c cs)
  show ?case by (simp only: insert_rows_Cons snd_conv list.map Cons.IH) simp
qed

lemma insert_rows_ReleaseID: "map ReleaseID (snd (insert_rows db cs)) = map ReleaseID cs"
proof (induction cs arbitrary: db)
  case Nil
  show ?case by simp
next
  case (Cons c cs)
  show ?case by (simp only: insert_rows_Cons snd_conv list.map Cons.IH) simp
qed

lemma insert_rows_length: "length (snd (insert_rows db cs)) = length cs"
  using arg_cong [OF insert_rows_Hash, of length db cs] by simp

lemma individual_inserts_errorCount_mono:
  "errorCount st \<le> errorCount (individual_inserts errs i reqs st)"
proof (induction reqs arbitrary: i st)
  case Nil
  show ?case by simp
next
  case (Cons req reqs)
  show ?case
  proof (cases "errs i")
    case None
    have "errorCount (st\<lparr>attempted := attempted st @ [req],
              fb_db := fst (insert_row (fb_db st) (to_entity req)),
              successCount := successCount st + 1\<rparr>) = errorCount st" by simp
    then show ?thesis using None
      Cons.IH [of "st\<lparr>attempted := attempted st @ [req],
              fb_db := fst (insert_row (fb_db st) (to_entity req)),
              successCount := successCount st + 1\<rparr>" "i + 1"]
      by (simp add: Let_def)
  next
    case (Some e)
    show ?thesis
      using Some Cons.IH [of "st\<lparr>attempted := attempted st @ [req], errorCount := errorCount st + 1\<rparr>" "i + 1"]
      by (simp add: Let_def)
  qed
qed

lemma individual_inserts_counts:
  "\<not> panicked (individual_inserts errs i reqs st) \<Longrightarrow>
     attempted (individual_inserts errs i reqs st) = attempted st @ reqs
     \<and> successCount (individual_inserts errs i reqs st) + errorCount (individual_inserts errs i reqs st)
         = successCount st + errorCount st + int (length reqs)"
proof (induction reqs arbitrary: i st)
  case Nil
  show ?case by simp
next
  case (Cons req reqs)
  show ?case
  proof (cases "errs i")
    case None
    let ?st = "st\<lparr>attempted := attempted st @ [req],
              fb_db := fst (insert_row (fb_db st) (to_entity req)),
              successCount := successCount st + 1\<rparr>"
    have eq: "individual_inserts errs i (req # reqs) st = individual_inserts errs (i + 1) reqs ?st"
      using None by (simp add: Let_def)
    with Cons.prems have "\<not> panicked (individual_inserts errs (i + 1) reqs ?st)" by simp
    from Cons.IH [OF this] show ?thesis unfolding eq by simp
  next
    case (Some e)
    let ?st = "st\<lparr>attempted := attempted st @ [req], errorCount := errorCount st + 1\<rparr>"
    from Cons.prems Some have long: "\<not> length (Hash req) < 8"
      by (auto simp: Let_def split: if_splits)
    then have eq: "individual_inserts errs i (req # reqs) st = individual_inserts errs (i + 1) reqs ?st"
      using Some by (simp add: Let_def)
    with Cons.prems have "\<not> panicked (individual_inserts errs (i + 1) reqs ?st)" by simp
    from Cons.IH [OF this] show ?thesis unfolding eq by simp
  qed
qed

lemma individual_inserts_no_error:
  "errorCount (individual_inserts errs i reqs st) = errorCount st \<Longrightarrow>
     commits (fb_db (individual_inserts errs i reqs st))
       = commits (fb_db st) @ snd (insert_rows (fb_db st) (map to_entity reqs))"
proof (induction reqs arbitrary: i st)
  case Nil
  show ?case by simp
next
  case (Cons req reqs)
  show ?case
  proof (cases "errs i")
    case None
    let ?st = "st\<lparr>attempted := attempted st @ [req],
              fb_db := fst (insert_row (fb_db st) (to_entity req)),
              successCount := successCount st + 1\<rparr>"
    have eq: "individual_inserts errs i (req # reqs) st = individual_inserts errs (i + 1) reqs ?st"
      using None by (simp add: Let_def)
    with Cons.prems have "errorCount (individual_inserts errs (i + 1) reqs ?st) = errorCount ?st" by simp
    from Cons.IH [OF this] show ?thesis
      unfolding eq by (simp add: insert_rows_Cons insert_row_def Let_def del: insert_rows.simps)
  next
    case (Some e)
    let ?st = "st\<lparr>attempted := attempted st @ [req], errorCount := errorCount st + 1\<rparr>"
    have "errorCount st + 1 \<le> errorCount (individual_inserts errs i (req # reqs) st)"
      using Some individual_inserts_errorCount_mono [of ?st errs "i + 1" reqs]
      by (simp add: Let_def)
    with Cons.prems show ?thesis by simp
  qed
qed

lemma insert_rows_key:
  "map (\<lambda>c. (Hash c, ReleaseID c)) (snd (insert_rows db cs)) = map (\<lambda>c. (Hash c, ReleaseID c)) cs"
proof (induction cs arbitrary: db)
  case Nil
  show ?case by simp
next
  case (Cons c cs)
  show ?case by (simp only: insert_rows_Cons snd_conv list.map Cons.IH) simp
qed

lemma inserted_row_present:
  assumes "r \<in> set new"
  shows "\<exists>c\<in>set (snd (insert_rows db (map to_entity new))). Hash c = Hash r \<and> ReleaseID c = ReleaseID r"
proof -
  have "(Hash r, ReleaseID r) \<in> set (map (\<lambda>c. (Hash c, ReleaseID c)) (map to_entity new))"
    using assms by (force simp: to_entity_def)
  then have "(Hash r, ReleaseID r) \<in> set (map (\<lambda>c. (Hash c, ReleaseID c)) (snd (insert_rows db (map to_entity new))))"
    by (simp only: insert_rows_key)
  then show ?thesis by auto
qed

lemma existingCommits_scope:
  "c \<in> set (existingCommits env db requests) \<Longrightarrow>
     c \<in> set (commits db) \<and> ReleaseID c = ReleaseID (hd requests) \<and> Hash c \<in> Hash ` set requests"
  by (auto simp: existingCommits_def find_existing_def split: list.splits option.splits)

lemma all_stored_dedup:
  assumes "requests \<noteq> []" and "find_existing_err env = None"
    and "\<forall>r\<in>set requests. \<exists>c\<in>set (commits db). Hash c = Hash r \<and> ReleaseID c = ReleaseID (hd requests)"
  shows "newRequests env db requests = []"
proof -
  obtain r0 rest where rq: "requests = r0 # rest"
    using assms(1) by (cases requests) auto
  have ex: "existingCommits env db requests
      = filter (\<lambda>c. Hash c \<in> set (map Hash requests) \<and> ReleaseID c = ReleaseID r0) (commits db)"
    using assms(2) by (simp add: existingCommits_def find_existing_def rq)
  have "\<forall>r\<in>set requests. Hash r \<in> Hash ` set (existingCommits env db requests)"
  proof
    fix r assume r: "r \<in> set requests"
    with assms(3) obtain c where c: "c \<in> set (commits db)" "Hash c = Hash r" "ReleaseID c = ReleaseID r0"
      by (auto simp: rq)
    have "c \<in> set (existingCommits env db requests)"
      unfolding ex using c r by auto
    then show "Hash r \<in> Hash ` set (existingCommits env db requests)"
      using c(2) by force
  qed
  then show ?thesis
    by (simp add: newRequests_filter)
qed

lemma BatchCreate_store:
  assumes "BatchCreate env db requests = (db1, Inr resp)" and "failed env db requests = 0"
  shows "commits db1 = commits db @ snd (insert_rows db (map to_entity (newRequests env db requests)))"
proof (cases "requests = [] \<or> newRequests env db requests = []")
  case True
  then have new: "newRequests env db requests = []"
    by (auto simp: newRequests_def)
  have "BatchCreate env db requests = (db, Inr [])"
    by (simp add: BatchCreate_def Let_def new)
  with assms(1) have "db1 = db" by simp
  then show ?thesis by (simp add: new)
next
  case False
  let ?new = "newRequests env db requests"
  show ?thesis
  proof (cases "create_in_batches_err env")
    case None
    then have "db1 = fst (insert_rows db (map to_entity ?new))"
      using assms(1) False
      by (auto simp: BatchCreate_def Let_def CreateInBatches_def split: option.splits prod.splits)
    then show ?thesis by (simp add: insert_rows_fst)
  next
    case (Some e)
    have db1: "db1 = fb_db (fallback env db ?new)"
      using assms(1) False Some
      by (auto simp: BatchCreate_def Let_def CreateInBatches_def split: option.splits if_splits)
    have "errorCount (fallback env db ?new) = 0"
      using assms(2) False Some by (simp add: failed_def Let_def)
    then have "commits (fb_db (fallback env db ?new))
        = commits db @ snd (insert_rows db (map to_entity ?new))"
      unfolding fallback_def
      using individual_inserts_no_error [of "create_err env" 0 ?new
          "\<lparr> fb_db = db, attempted = [], successCount = 0, errorCount = 0, panicked = False \<rparr>"]
      by simp
    then show ?thesis by (simp add: db1)
  qed
qed

lemma BatchCreate_all_stored:
  assumes "requests \<noteq> []" and "\<forall>r\<in>set requests. ReleaseID r = rid"
    and "BatchCreate env db requests = (db1, Inr resp)" and "failed env db requests = 0"
  shows "\<forall>r\<in>set requests. \<exists>c\<in>set (commits db1). Hash c = Hash r \<and> ReleaseID c = rid"
proof
  fix r assume r: "r \<in> set requests"
  let ?new = "newRequests env db requests"
  have st: "commits db1 = commits db @ snd (insert_rows db (map to_entity ?new))"
    by (rule BatchCreate_store [OF assms(3,4)])
  have hd: "ReleaseID (hd requests) = rid"
    using assms(1,2) by (cases requests) auto
  show "\<exists>c\<in>set (commits db1). Hash c = Hash r \<and> ReleaseID c = rid"
  proof (cases "r \<in> set ?new")
    case True
    from inserted_row_present [OF True, of db]
    obtain c where "c \<in> set (snd (insert_rows db (map to_entity ?new)))" "Hash c = Hash r" "ReleaseID c = ReleaseID r"
      by blast
    then show ?thesis using st r assms(2) by auto
  next
    case False
    then have "Hash r \<in> Hash ` set (existingCommits env db requests)"
      using r by (simp add: newRequests_filter)
    then obtain c where c: "c \<in> set (existingCommits env db requests)" "Hash c = Hash r"
      by auto
    from existingCommits_scope [OF c(1)] have "c \<in> set (commits db)" "ReleaseID c = rid"
      by (simp_all add: hd)
    then show ?thesis using st c(2) by auto
  qed
qed

text \<open>
  C2 (dedup idempotence), as the code has it. For a non-empty batch whose requests share
  one release: if a call of \<^verbatim>\<open>BatchCreate\<close> returns without error and no
  per-record insert of it failed, and the existence query of a second call on the store
  it left succeeds, then the second call classifies every request as present, inserts
  nothing and returns the empty response.
\<close>

theorem dedup_idempotence_second_call:
  assumes "requests \<noteq> []" and "\<forall>r\<in>set requests. ReleaseID r = rid"
    and "BatchCreate env1 db requests = (db1, Inr resp)" and "failed env1 db requests = 0"
    and "find_existing_err env2 = None"
  shows "BatchCreate env2 db1 requests = (db1, Inr [])
         \<and> deduplicated env2 db1 requests = length requests
         \<and> written env2 db1 requests = 0"
proof -
  have hd: "ReleaseID (hd requests) = rid"
    using assms(1,2) by (cases requests) auto
  have "\<forall>r\<in>set requests. \<exists>c\<in>set (commits db1). Hash c = Hash r \<and> ReleaseID c = ReleaseID (hd requests)"
    unfolding hd by (rule BatchCreate_all_stored [OF assms(1-4)])
  then have new: "newRequests env2 db1 requests = []"
    by (rule all_stored_dedup [OF assms(1) assms(5)])
  then have b: "BatchCreate env2 db1 requests = (db1, Inr [])"
    by (simp add: BatchCreate_def Let_def)
  show ?thesis
    using b new by (simp add: deduplicated_def written_def)
qed

lemmas ex_defs = healthy_def lookup_down_def lookup_down_tx_aborted_def batch_and_first_fail_def empty_db_def
  req_a_def req_b_def req_short_def req_other_def

lemmas bc_defs = BatchCreate_def newRequests_def existingCommits_def existingMap_def map_bool_def
  find_existing_def CreateInBatches_def insert_row_def to_entity_def to_response_def fallback_def
  Let_def

lemma first_call: "BatchCreate healthy empty_db [req_a, req_b] = (stored_ab, Inr (commits stored_ab))"
  by (simp add: ex_defs bc_defs stored_ab_def)

lemma first_failed: "failed healthy empty_db [req_a, req_b] = 0"
  by (simp add: failed_def ex_defs bc_defs)

theorem dedup_idempotence_second_call_witness:
  "[req_a, req_b] \<noteq> [] \<and> ReleaseID req_a = 7 \<and> ReleaseID req_b = 7
   \<and> BatchCreate healthy empty_db [req_a, req_b] = (stored_ab, Inr (commits stored_ab))
   \<and> failed healthy empty_db [req_a, req_b] = 0
   \<and> find_existing_err healthy = None
   \<and> BatchCreate healthy stored_ab [req_a, req_b] = (stored_ab, Inr [])
   \<and> deduplicated healthy stored_ab [req_a, req_b] = 2
   \<and> written healthy stored_ab [req_a, req_b] = 0"
proof -
  have h1: "[req_a, req_b] \<noteq> []" by simp
  have h2: "\<forall>r\<in>set [req_a, req_b]. ReleaseID r = 7" by (simp add: ex_defs)
  have h5: "find_existing_err healthy = None" by (simp add: healthy_def)
  from dedup_idempotence_second_call [OF h1 h2 first_call first_failed h5]
  show ?thesis using h2 h5 first_call first_failed by simp
qed

text \<open>
  The claim as it is written fails where the second call's existence query fails: the
  first call committed both rows, the second call inserts both again, through the batch
  insert or, when the transaction refuses that too, through the fallback. It also fails
  after a first call that returned no error from the fallback with one failed insert:
  a second call on a healthy store writes the missing row.
\<close>

theorem dedup_idempotence_counterexample:
  "BatchCreate healthy empty_db [req_a, req_b] = (stored_ab, Inr (commits stored_ab))
   \<and> written lookup_down stored_ab [req_a, req_b] = 2
   \<and> deduplicated lookup_down stored_ab [req_a, req_b] = 0
   \<and> \<not> (written lookup_down stored_ab [req_a, req_b] = 0
          \<and> deduplicated lookup_down stored_ab [req_a, req_b] = length [req_a, req_b])
   \<and> written lookup_down_tx_aborted stored_ab [req_a, req_b] = 2
   \<and> snd (BatchCreate batch_and_first_fail empty_db [req_a, req_b])
       = Inr [\<lparr> Hash = ''0b64e8aa91c4'', Message = ''bump version'', ReleaseID = 7, ID = 1 \<rparr>]
   \<and> written healthy (fst (BatchCreate batch_and_first_fail empty_db [req_a, req_b])) [req_a, req_b] = 1"
  by (simp add: ex_defs bc_defs stored_ab_def written_def deduplicated_def)

text \<open>
  C7 (storage error in the comparison step), as the code has it. When the existence
  query fails on a non-empty batch, the call goes on with no existing record: no request
  is filtered out. When the batch insert and the commit succeed, every request of the
  batch is inserted and the call returns their responses. Whenever the call returns
  without error and no single insert failed, by the batch insert or by the fallback,
  the store has gained a row for every request of the batch. Which error the query gave
  has no effect on what the call does or returns.
\<close>

theorem lookup_failure_continues:
  assumes "find_existing_err env = Some e" and "requests \<noteq> []"
  shows "newRequests env db requests = requests
     \<and> deduplicated env db requests = 0
     \<and> (create_in_batches_err env = None \<and> commit_err env = None \<longrightarrow>
          BatchCreate env db requests
            = (fst (insert_rows db (map to_entity requests)),
               Inr (map to_response (snd (insert_rows db (map to_entity requests)))))
          \<and> written env db requests = length requests)
     \<and> (BatchCreate env db requests = (db1, Inr resp) \<and> failed env db requests = 0 \<longrightarrow>
          commits db1 = commits db @ snd (insert_rows db (map to_entity requests))
          \<and> written env db requests = length requests)
     \<and> BatchCreate (env\<lparr>find_existing_err := Some e'\<rparr>) db requests = BatchCreate env db requests"
proof (intro conjI impI)
  show new: "newRequests env db requests = requests"
    by (rule newRequests_failed [OF assms(1)])
  then show "deduplicated env db requests = 0"
    by (simp add: deduplicated_def)
  have new': "newRequests (env\<lparr>find_existing_err := Some e'\<rparr>) db requests = requests"
    by (rule newRequests_failed) simp
  have fb: "fallback (env\<lparr>find_existing_err := Some e'\<rparr>) db requests = fallback env db requests"
    by (simp add: fallback_def)
  show "BatchCreate (env\<lparr>find_existing_err := Some e'\<rparr>) db requests = BatchCreate env db requests"
    by (cases "create_in_batches_err env")
       (simp_all add: BatchCreate_def new new' CreateInBatches_def fb Let_def split: prod.splits)
next
  assume ok: "create_in_batches_err env = None \<and> commit_err env = None"
  have new: "newRequests env db requests = requests"
    by (rule newRequests_failed [OF assms(1)])
  show b: "BatchCreate env db requests
            = (fst (insert_rows db (map to_entity requests)),
               Inr (map to_response (snd (insert_rows db (map to_entity requests)))))"
    using assms(2) ok
    by (simp add: BatchCreate_def new CreateInBatches_def split: prod.splits)
  show "written env db requests = length requests"
    by (simp add: written_def b insert_rows_fst insert_rows_length)
next
  assume r: "BatchCreate env db requests = (db1, Inr resp) \<and> failed env db requests = 0"
  have new: "newRequests env db requests = requests"
    by (rule newRequests_failed [OF assms(1)])
  from r have "commits db1 = commits db @ snd (insert_rows db (map to_entity (newRequests env db requests)))"
    by (intro BatchCreate_store) simp_all
  then show st: "commits db1 = commits db @ snd (insert_rows db (map to_entity requests))"
    by (simp only: new)
  from r have "fst (BatchCreate env db requests) = db1" by simp
  then show "written env db requests = length requests"
    by (simp add: written_def st insert_rows_length)
qed

theorem lookup_failure_continues_witness:
  "find_existing_err lookup_down = Some ''connection reset'' \<and> [req_a, req_b] \<noteq> []
   \<and> create_in_batches_err lookup_down = None \<and> commit_err lookup_down = None
   \<and> newRequests lookup_down stored_ab [req_a, req_b] = [req_a, req_b]
   \<and> written lookup_down stored_ab [req_a, req_b] = length [req_a, req_b]
   \<and> find_existing_err lookup_down_tx_aborted = Some ''statement timeout''
   \<and> BatchCreate lookup_down_tx_aborted empty_db [req_a, req_b] = (stored_ab, Inr (commits stored_ab))
   \<and> failed lookup_down_tx_aborted empty_db [req_a, req_b] = 0
   \<and> written lookup_down_tx_aborted empty_db [req_a, req_b] = length [req_a, req_b]"
proof -
  have h1: "find_existing_err lookup_down = Some ''connection reset''"
    by (simp add: lookup_down_def healthy_def)
  have h2: "[req_a, req_b] \<noteq> []" by simp
  have h3: "create_in_batches_err lookup_down = None \<and> commit_err lookup_down = None"
    by (simp add: lookup_down_def healthy_def)
  have c1: "newRequests lookup_down stored_ab [req_a, req_b] = [req_a, req_b]
      \<and> written lookup_down stored_ab [req_a, req_b] = length [req_a, req_b]"
    using lookup_failure_continues [OF h1 h2, of stored_ab] h3 by blast
  have k1: "find_existing_err lookup_down_tx_aborted = Some ''statement timeout''"
    by (simp add: lookup_down_tx_aborted_def healthy_def)
  have k3: "BatchCreate lookup_down_tx_aborted empty_db [req_a, req_b] = (stored_ab, Inr (commits stored_ab))
      \<and> failed lookup_down_tx_aborted empty_db [req_a, req_b] = 0"
    by (simp add: ex_defs bc_defs stored_ab_def failed_def)
  have c2: "written lookup_down_tx_aborted empty_db [req_a, req_b] = length [req_a, req_b]"
    using lookup_failure_continues [OF k1 h2, of empty_db stored_ab "commits stored_ab"] k3 by blast
  from h1 h2 h3 c1 k1 k3 c2 show ?thesis by blast
qed

text \<open>
  The claim as it is written fails. The existence query fails on the empty store and
  the call inserts both requests of the batch, through the batch insert; and when the
  failed query has made the transaction refuse the batch insert as well, the fallback
  inserts both.
\<close>

theorem lookup_failure_counterexample:
  "find_existing_err lookup_down = Some ''connection reset''
   \<and> BatchCreate lookup_down empty_db [req_a, req_b] = (stored_ab, Inr (commits stored_ab))
   \<and> find_existing_err lookup_down_tx_aborted = Some ''statement timeout''
   \<and> BatchCreate lookup_down_tx_aborted empty_db [req_a, req_b] = (stored_ab, Inr (commits stored_ab))
   \<and> commits stored_ab \<noteq> commits empty_db"
  by (simp add: ex_defs bc_defs stored_ab_def)

text \<open>
  The fallback counts every request exactly once unless the process panics, and it
  cannot panic when every hash has at least 8 bytes.
\<close>

lemma individual_inserts_long_hashes:
  "\<forall>r\<in>set reqs. 8 \<le> length (Hash r) \<Longrightarrow>
     panicked (individual_inserts errs i reqs st) = panicked st"
proof (induction reqs arbitrary: i st)
  case Nil
  show ?case by simp
next
  case (Cons req reqs)
  then have long: "\<not> length (Hash req) < 8" and rest: "\<forall>r\<in>set reqs. 8 \<le> length (Hash r)"
    by auto
  show ?case
    using long Cons.IH [OF rest]
    by (cases "errs i") (simp_all add: Let_def)
qed

lemma fallback_complete:
  assumes "\<not> panicked (fallback env db reqs)"
  shows "attempted (fallback env db reqs) = reqs
     \<and> successCount (fallback env db reqs) + errorCount (fallback env db reqs) = int (length reqs)"
  using individual_inserts_counts [of "create_err env" 0 reqs
      "\<lparr> fb_db = db, attempted = [], successCount = 0, errorCount = 0, panicked = False \<rparr>"]
    assms
  by (simp add: fallback_def)

lemma fallback_long_hashes:
  "\<forall>r\<in>set reqs. 8 \<le> length (Hash r) \<Longrightarrow> \<not> panicked (fallback env db reqs)"
  by (simp add: fallback_def individual_inserts_long_hashes)

text \<open>
  C5 (fallback completeness) at a batch whose first request has a 3-byte hash. The batch
  insert fails, the first single insert fails, and its log line slices the hash to 8
  bytes: the process panics with one request tried out of two, the counters at 0 and 1.
\<close>

theorem fallback_short_hash_panics:
  "newRequests batch_and_first_fail empty_db [req_short, req_b] = [req_short, req_b]
   \<and> BatchCreate batch_and_first_fail empty_db [req_short, req_b] = (empty_db, Inl PanicSliceBounds)
   \<and> attempted (fallback batch_and_first_fail empty_db [req_short, req_b]) = [req_short]
   \<and> successCount (fallback batch_and_first_fail empty_db [req_short, req_b])
      + errorCount (fallback batch_and_first_fail empty_db [req_short, req_b]) = 1
   \<and> int (length [req_short, req_b]) = 2"
  by (simp add: ex_defs bc_defs)

text \<open>
  C10 (scope of the duplicate check). For a non-empty batch whose existence query
  succeeds, the records fetched are those of the store whose hash is one of the batch's
  hashes and whose release is the release of the first request. So a request whose hash
  is stored under another release than that of the first request, and not under that
  one, is not filtered out, whatever its own release is: it is among the new requests,
  and when the batch insert and the commit succeed the store afterwards holds one more
  row with the request's hash and release than before.
\<close>

theorem dedup_scoped_to_first_release:
  "(requests = r0 # rest \<and> find_existing_err env = None \<longrightarrow>
      existingCommits env db requests
        = filter (\<lambda>c. Hash c \<in> set (map Hash requests) \<and> ReleaseID c = ReleaseID r0) (commits db))
   \<and> (requests = r0 # rest \<and> r \<in> set requests
        \<and> (\<exists>c\<in>set (commits db). Hash c = Hash r \<and> ReleaseID c \<noteq> ReleaseID r0)
        \<and> \<not> (\<exists>c\<in>set (commits db). Hash c = Hash r \<and> ReleaseID c = ReleaseID r0)
      \<longrightarrow> r \<in> set (newRequests env db requests)
          \<and> (create_in_batches_err env = None \<and> commit_err env = None \<longrightarrow>
                length (filter (\<lambda>c. Hash c = Hash r \<and> ReleaseID c = ReleaseID r) (commits db))
                  < length (filter (\<lambda>c. Hash c = Hash r \<and> ReleaseID c = ReleaseID r)
                              (commits (fst (BatchCreate env db requests))))))"
proof (intro conjI impI)
  assume "requests = r0 # rest \<and> find_existing_err env = None"
  then show "existingCommits env db requests
        = filter (\<lambda>c. Hash c \<in> set (map Hash requests) \<and> ReleaseID c = ReleaseID r0) (commits db)"
    by (simp add: existingCommits_def find_existing_def)
next
  assume a: "requests = r0 # rest \<and> r \<in> set requests
        \<and> (\<exists>c\<in>set (commits db). Hash c = Hash r \<and> ReleaseID c \<noteq> ReleaseID r0)
        \<and> \<not> (\<exists>c\<in>set (commits db). Hash c = Hash r \<and> ReleaseID c = ReleaseID r0)"
  then have hd: "hd requests = r0" by simp
  from a have rin: "r \<in> set requests" by blast
  have notin: "Hash r \<notin> Hash ` set (existingCommits env db requests)"
  proof
    assume "Hash r \<in> Hash ` set (existingCommits env db requests)"
    then obtain c where c: "c \<in> set (existingCommits env db requests)" "Hash c = Hash r"
      by auto
    from existingCommits_scope [OF c(1)] c(2) a hd show False by auto
  qed
  from rin notin show new: "r \<in> set (newRequests env db requests)"
    by (simp add: newRequests_filter)
  assume ok: "create_in_batches_err env = None \<and> commit_err env = None"
  let ?new = "newRequests env db requests"
  let ?P = "\<lambda>c. Hash c = Hash r \<and> ReleaseID c = ReleaseID r"
  from new have ne: "?new \<noteq> []" by auto
  have "fst (BatchCreate env db requests) = fst (insert_rows db (map to_entity ?new))"
    using a ne ok by (simp add: BatchCreate_def CreateInBatches_def Let_def split: prod.splits)
  then have st: "commits (fst (BatchCreate env db requests))
      = commits db @ snd (insert_rows db (map to_entity ?new))"
    by (simp add: insert_rows_fst)
  from inserted_row_present [OF new, of db]
  have "filter ?P (snd (insert_rows db (map to_entity ?new))) \<noteq> []"
    by (auto simp: filter_empty_conv)
  then have "0 < length (filter ?P (snd (insert_rows db (map to_entity ?new))))"
    by simp
  then show "length (filter ?P (commits db)) < length (filter ?P (commits (fst (BatchCreate env db requests))))"
    by (simp add: st)
qed

theorem dedup_scoped_to_first_release_witness:
  "[req_a, req_other] = req_a # [req_other] \<and> find_existing_err healthy = None
   \<and> req_other \<in> set [req_a, req_other]
   \<and> (\<exists>c\<in>set (commits stored_other). Hash c = Hash req_other \<and> ReleaseID c \<noteq> ReleaseID req_a)
   \<and> \<not> (\<exists>c\<in>set (commits stored_other). Hash c = Hash req_other \<and> ReleaseID c = ReleaseID req_a)
   \<and> create_in_batches_err healthy = None \<and> commit_err healthy = None
   \<and> existingCommits healthy stored_other [req_a, req_other] = []
   \<and> req_other \<in> set (newRequests healthy stored_other [req_a, req_other])
   \<and> length (filter (\<lambda>c. Hash c = Hash req_other \<and> ReleaseID c = ReleaseID req_other) (commits stored_other))
       < length (filter (\<lambda>c. Hash c = Hash req_other \<and> ReleaseID c = ReleaseID req_other)
                   (commits (fst (BatchCreate healthy stored_other [req_a, req_other]))))
   \<and> length (filter (\<lambda>c. Hash c = Hash req_other \<and> ReleaseID c = ReleaseID req_other) (commits stored_other)) = 1"
proof -
  have h1: "[req_a, req_other] = req_a # [req_other] \<and> find_existing_err healthy = None"
    by (simp add: healthy_def)
  have h2: "[req_a, req_other] = req_a # [req_other] \<and> req_other \<in> set [req_a, req_other]
        \<and> (\<exists>c\<in>set (commits stored_other). Hash c = Hash req_other \<and> ReleaseID c \<noteq> ReleaseID req_a)
        \<and> \<not> (\<exists>c\<in>set (commits stored_other). Hash c = Hash req_other \<and> ReleaseID c = ReleaseID req_a)"
    by (simp add: ex_defs stored_other_def)
  have h3: "create_in_batches_err healthy = None \<and> commit_err healthy = None"
    by (simp add: healthy_def)
  have f: "filter (\<lambda>c. Hash c \<in> set (map Hash [req_a, req_other]) \<and> ReleaseID c = ReleaseID req_a)
             (commits stored_other) = []"
    by (simp add: ex_defs stored_other_def)
  have one: "length (filter (\<lambda>c. Hash c = Hash req_other \<and> ReleaseID c = ReleaseID req_other) (commits stored_other)) = 1"
    by (simp add: ex_defs stored_other_def)
  note t = dedup_scoped_to_first_release
    [of "[req_a, req_other]" req_a "[req_other]" healthy stored_other req_other]
  have c1: "existingCommits healthy stored_other [req_a, req_other] = []"
    using t h1 f by simp
  have c2: "req_other \<in> set (newRequests healthy stored_other [req_a, req_other])
     \<and> length (filter (\<lambda>c. Hash c = Hash req_other \<and> ReleaseID c = ReleaseID req_other) (commits stored_other))
       < length (filter (\<lambda>c. Hash c = Hash req_other \<and> ReleaseID c = ReleaseID req_other)
                   (commits (fst (BatchCreate healthy stored_other [req_a, req_other]))))"
    using t h2 h3 by blast
  from h1 h2 h3 c1 c2 one show ?thesis by blast
qed

section \<open>Coordinator: gating, reactivation and the periodic loop\<close>

lemma step1_calls:
  "step1 env c = (c1, repoChanged, calls1) \<Longrightarrow> count_list calls1 Releases = 0"
  by (auto simp: step1_def split: if_splits sum.splits)

lemma step1_changed:
  "step1 env c = (c1, repoChanged, calls1) \<Longrightarrow>
     (repoChanged \<longleftrightarrow> repoCache c = None \<and> (\<exists>d. repo_result env = Inr d))
     \<and> (repoChanged \<longrightarrow> \<not> releasePaused c1)
     \<and> (\<not> repoChanged \<longrightarrow> c1 = c)"
  by (auto simp: step1_def split: if_splits sum.splits)

lemma step2_calls:
  "step2 marshal env repoChanged c1 = (c2, releaseChanged, calls2) \<Longrightarrow>
     calls2 = (if (repoChanged \<or> releaseCache c1 = None) \<and> \<not> releasePaused c1 then [Releases] else [])"
  by (auto simp: step2_def Let_def split: if_splits sum.splits)

lemma step3_calls:
  "step3 marshal env releaseChanged c2 = (c3, calls3) \<Longrightarrow> count_list calls3 Releases = 0"
  by (auto simp: step3_def Let_def split: if_splits sum.splits)

lemma CrawlAll_release_calls:
  assumes "step1 env c = (c1, repoChanged, calls1)"
  shows "count_list (snd (CrawlAll marshal env c)) Releases
     = (if (repoChanged \<or> releaseCache c1 = None) \<and> \<not> releasePaused c1 then 1 else 0)"
proof -
  obtain c2 releaseChanged calls2 where s2: "step2 marshal env repoChanged c1 = (c2, releaseChanged, calls2)"
    by (cases "step2 marshal env repoChanged c1") auto
  obtain c3 calls3 where s3: "step3 marshal env releaseChanged c2 = (c3, calls3)"
    by (cases "step3 marshal env releaseChanged c2") auto
  have "snd (CrawlAll marshal env c) = calls1 @ calls2 @ calls3"
    by (simp add: CrawlAll_def assms s2 s3)
  then show ?thesis
    using step1_calls [OF assms] step2_calls [OF s2] step3_calls [OF s3]
    by simp
qed

text \<open>
  C6 (stage-B change gating). In one cycle the guarded release call
  \<^verbatim>\<open>CrawlReleases\<close> is made once if (the repositories were fetched in this cycle, or
  there is no cached release result) and the release stage is not paused when step 2
  looks, and not at all otherwise; \<open>c1\<close> is the state that step 1 leaves. When the
  repositories were fetched in this cycle the call is made exactly once (step 1 has
  cleared the pause flag); when they were not and a release result is cached, it is not
  made. The repositories count as changed exactly when there was no cached result and the
  fetch succeeded; otherwise step 1 leaves the state as it was.
\<close>

theorem stage_B_gating:
  assumes "step1 env c = (c1, repoChanged, calls1)"
  shows "count_list (snd (CrawlAll marshal env c)) Releases
           = (if (repoChanged \<or> releaseCache c1 = None) \<and> \<not> releasePaused c1 then 1 else 0)
     \<and> (repoChanged \<longrightarrow> count_list (snd (CrawlAll marshal env c)) Releases = 1)
     \<and> (\<not> repoChanged \<and> releaseCache c \<noteq> None \<longrightarrow> count_list (snd (CrawlAll marshal env c)) Releases = 0)
     \<and> (repoChanged \<longleftrightarrow> repoCache c = None \<and> (\<exists>d. repo_result env = Inr d))
     \<and> (\<not> repoChanged \<longrightarrow> c1 = c)"
  using CrawlAll_release_calls [OF assms, of marshal] step1_changed [OF assms]
  by auto

lemmas coord_defs = step1_def step2_def step3_def CrawlAll_def hasDataChanged_def json_text_def
  ForceReactivateAll_def NewCrawlingCoordinator_def populated_def same_again_def Let_def

theorem stage_B_gating_witness:
  "step1 same_again (ForceReactivateAll populated)
     = (populated, True, [Repos])
   \<and> count_list (snd (CrawlAll (\<lambda>d. d) same_again (ForceReactivateAll populated))) Releases = 1
   \<and> step1 same_again populated = (populated, False, [])
   \<and> releaseCache populated \<noteq> None
   \<and> count_list (snd (CrawlAll (\<lambda>d. d) same_again populated)) Releases = 0"
proof -
  have h1: "step1 same_again (ForceReactivateAll populated)
     = (populated, True, [Repos])"
    by (simp add: coord_defs)
  have h2: "step1 same_again populated = (populated, False, [])"
    by (simp add: coord_defs)
  have h3: "releaseCache populated \<noteq> None"
    by (simp add: populated_def)
  have c1: "count_list (snd (CrawlAll (\<lambda>d. d) same_again (ForceReactivateAll populated))) Releases = 1"
    using stage_B_gating [OF h1, of "\<lambda>d. d"] by blast
  have c2: "count_list (snd (CrawlAll (\<lambda>d. d) same_again populated)) Releases = 0"
    using stage_B_gating [OF h2, of "\<lambda>d. d"] h3 by blast
  from h1 h2 h3 c1 c2 show ?thesis by blast
qed

lemma reactivated_calls:
  "snd (CrawlAll marshal env (ForceReactivateAll c))
     = [Repos]
       @ (if (\<exists>d. repo_result env = Inr d) \<or> releaseCache c = None then [Releases] else [])
       @ (if ((\<exists>d. repo_result env = Inr d) \<or> releaseCache c = None)
              \<and> (\<exists>d. release_result env = Inr d \<and> hasDataChanged marshal (releaseCache c) d)
             \<or> commitCache c = None
          then [Commits] else [])"
proof -
  let ?c = "ForceReactivateAll c"
  let ?A = "\<exists>d. repo_result env = Inr d"
  obtain c1 repoChanged calls1 where s1: "step1 env ?c = (c1, repoChanged, calls1)"
    by (cases "step1 env ?c") auto
  obtain c2 releaseChanged calls2 where s2: "step2 marshal env repoChanged c1 = (c2, releaseChanged, calls2)"
    by (cases "step2 marshal env repoChanged c1") auto
  obtain c3 calls3 where s3: "step3 marshal env releaseChanged c2 = (c3, calls3)"
    by (cases "step3 marshal env releaseChanged c2") auto
  have all: "snd (CrawlAll marshal env ?c) = calls1 @ calls2 @ calls3"
    by (simp add: CrawlAll_def s1 s2 s3)
  have f1: "calls1 = [Repos]" "repoChanged = ?A" "releaseCache c1 = releaseCache c"
    "\<not> releasePaused c1" "commitCache c1 = commitCache c" "\<not> commitPaused c1"
    using s1 by (auto simp: step1_def ForceReactivateAll_def split: sum.splits)
  let ?B = "?A \<or> releaseCache c = None"
  have f2: "calls2 = (if ?B then [Releases] else [])"
    using step2_calls [OF s2] f1 by simp
  have g2: "releaseChanged = (?B \<and> (\<exists>d. release_result env = Inr d \<and> hasDataChanged marshal (releaseCache c) d))"
    "commitCache c2 = commitCache c" "\<not> commitPaused c2"
    using s2 f1 by (auto simp: step2_def Let_def split: sum.splits if_splits)
  have f3: "calls3 = (if releaseChanged \<or> commitCache c = None then [Commits] else [])"
    using s3 g2(2,3) by (auto simp: step3_def Let_def split: sum.splits if_splits)
  show ?thesis
    unfolding all f1(1) f2 f3 g2(1) by simp
qed

text \<open>
  C4 (reactivation), as the code has it. \<^verbatim>\<open>ForceReactivateAll\<close> clears the cached
  repository result, the pause flags of the release and commit stages and the three
  no-change counters. It leaves the cached release and commit results, the repository
  pause flag (which nothing ever sets) and the threshold as they are. The calls of the
  next cycle are then exactly these: the repository call; the release call if the
  repository call succeeds or no release result is cached; and the commit call if the
  release call was made and returned a result that differs from the retained cached one,
  or no commit result is cached. In particular the cycle starts with the repository call,
  and when that call succeeds the release call follows.
\<close>

theorem reactivate_effect:
  "repoCache (ForceReactivateAll c) = None
   \<and> releaseCache (ForceReactivateAll c) = releaseCache c
   \<and> commitCache (ForceReactivateAll c) = commitCache c
   \<and> releasePaused (ForceReactivateAll c) = False
   \<and> commitPaused (ForceReactivateAll c) = False
   \<and> repoPaused (ForceReactivateAll c) = repoPaused c
   \<and> repoNoChangeCount (ForceReactivateAll c) = 0
   \<and> releaseNoChangeCount (ForceReactivateAll c) = 0
   \<and> commitNoChangeCount (ForceReactivateAll c) = 0
   \<and> stabilityThreshold (ForceReactivateAll c) = stabilityThreshold c
   \<and> snd (CrawlAll marshal env (ForceReactivateAll c))
        = [Repos]
          @ (if (\<exists>d. repo_result env = Inr d) \<or> releaseCache c = None then [Releases] else [])
          @ (if ((\<exists>d. repo_result env = Inr d) \<or> releaseCache c = None)
                 \<and> (\<exists>d. release_result env = Inr d \<and> hasDataChanged marshal (releaseCache c) d)
                \<or> commitCache c = None
             then [Commits] else [])
   \<and> take 1 (snd (CrawlAll marshal env (ForceReactivateAll c))) = [Repos]
   \<and> (repo_result env = Inr d \<longrightarrow>
         take 2 (snd (CrawlAll marshal env (ForceReactivateAll c))) = [Repos, Releases])"
proof -
  note calls = reactivated_calls [of marshal env c]
  have t1: "take 1 (snd (CrawlAll marshal env (ForceReactivateAll c))) = [Repos]"
    unfolding calls by simp
  have t2: "take 2 (snd (CrawlAll marshal env (ForceReactivateAll c))) = [Repos, Releases]"
    if "repo_result env = Inr d"
    unfolding calls using that by simp
  show ?thesis
    using calls t1 t2 by (simp add: ForceReactivateAll_def)
qed

lemma first_cycle: "CrawlAll (\<lambda>d. d) same_again NewCrawlingCoordinator = (populated, [Repos, Releases, Commits])"
  by (simp add: coord_defs)

theorem reactivate_effect_witness:
  "repo_result same_again = Inr (Some ''[5000]'')
   \<and> take 2 (snd (CrawlAll (\<lambda>d. d) same_again (ForceReactivateAll populated))) = [Repos, Releases]
   \<and> releaseCache (ForceReactivateAll populated) = releaseCache populated
   \<and> commitCache (ForceReactivateAll populated) = commitCache populated"
proof -
  have h: "repo_result same_again = Inr (Some ''[5000]'')"
    by (simp add: same_again_def)
  from reactivate_effect [of populated "\<lambda>d. d" same_again "Some ''[5000]''"] h
  show ?thesis by blast
qed

text \<open>
  The claim as it is written fails. One cycle on a new coordinator caches all three
  results; after \<^verbatim>\<open>ForceReactivateAll\<close> the cached release and commit results are
  still there, and a next cycle in which every endpoint answers as before calls the
  repository and release stages only.
\<close>

theorem reactivate_counterexample:
  "CrawlAll (\<lambda>d. d) same_again NewCrawlingCoordinator = (populated, [Repos, Releases, Commits])
   \<and> releaseCache (ForceReactivateAll populated) = Some ''[120]''
   \<and> commitCache (ForceReactivateAll populated) = Some ''[900]''
   \<and> \<not> (repoCache (ForceReactivateAll populated) = None
          \<and> releaseCache (ForceReactivateAll populated) = None
          \<and> commitCache (ForceReactivateAll populated) = None)
   \<and> snd (CrawlAll (\<lambda>d. d) same_again (ForceReactivateAll populated)) = [Repos, Releases]"
  by (simp add: coord_defs)

lemma periodic_loop_cycles:
  "length (fst (snd (periodic_loop marshal c events)))
     = length (takeWhile (\<lambda>e. e \<noteq> StopSignal) events)
   \<and> snd (snd (periodic_loop marshal c events)) = (StopSignal \<in> set events)"
proof (induction events arbitrary: c)
  case Nil
  show ?case by simp
next
  case (Cons e es)
  show ?case
  proof (cases e)
    case StopSignal
    then show ?thesis by simp
  next
    case (Tick env)
    obtain c1 calls where ca: "CrawlAll marshal env c = (c1, calls)"
      by (cases "CrawlAll marshal env c") auto
    obtain c2 cycles returned where lp: "periodic_loop marshal c1 es = (c2, cycles, returned)"
      by (cases "periodic_loop marshal c1 es") auto
    from Cons.IH [of c1] lp show ?thesis
      by (simp add: Tick ca)
  qed
qed

text \<open>
  C8 (periodic loop), as the code has it. \<^verbatim>\<open>StartPeriodicCrawling\<close> with a positive
  interval runs no cycle when it starts: before any tick it has run nothing, and a stop
  signal that comes first makes it return with no cycle run. It runs one full cycle per
  tick received before the stop signal and returns on the stop signal without a further
  cycle. The cycle at start-up is run by the caller:
  \<^verbatim>\<open>startCircuitBreakerCoordinator\<close> runs \<^verbatim>\<open>CrawlAll\<close> once on the new
  coordinator and then enters the loop, one cycle more than the loop's.
\<close>

theorem periodic_crawling_cycles:
  "(0 < interval \<longrightarrow>
      StartPeriodicCrawling marshal interval events c = Some (periodic_loop marshal c events)
      \<and> StartPeriodicCrawling marshal interval [] c = Some (c, [], False)
      \<and> StartPeriodicCrawling marshal interval (StopSignal # es) c = Some (c, [], True)
      \<and> StartPeriodicCrawling marshal interval (Tick env # StopSignal # es) c
           = Some (fst (CrawlAll marshal env c), [snd (CrawlAll marshal env c)], True))
   \<and> length (fst (snd (periodic_loop marshal c events)))
        = length (takeWhile (\<lambda>e. e \<noteq> StopSignal) events)
   \<and> snd (snd (periodic_loop marshal c events)) = (StopSignal \<in> set events)
   \<and> (0 < seconds \<longrightarrow>
        (\<exists>c' cycles returned.
           startCircuitBreakerCoordinator marshal seconds first events = Some (c', cycles, returned)
           \<and> hd cycles = snd (CrawlAll marshal first NewCrawlingCoordinator)
           \<and> length cycles = 1 + length (takeWhile (\<lambda>e. e \<noteq> StopSignal) events)))"
proof (intro conjI impI)
  assume "0 < interval"
  then show "StartPeriodicCrawling marshal interval events c = Some (periodic_loop marshal c events)"
    and "StartPeriodicCrawling marshal interval [] c = Some (c, [], False)"
    and "StartPeriodicCrawling marshal interval (StopSignal # es) c = Some (c, [], True)"
    and "StartPeriodicCrawling marshal interval (Tick env # StopSignal # es) c
           = Some (fst (CrawlAll marshal env c), [snd (CrawlAll marshal env c)], True)"
    by (simp_all add: StartPeriodicCrawling_def split: prod.splits)
next
  show "length (fst (snd (periodic_loop marshal c events)))
        = length (takeWhile (\<lambda>e. e \<noteq> StopSignal) events)"
    and "snd (snd (periodic_loop marshal c events)) = (StopSignal \<in> set events)"
    using periodic_loop_cycles [of marshal c events] by simp_all
next
  assume pos: "0 < seconds"
  obtain c1 calls where ca: "CrawlAll marshal first NewCrawlingCoordinator = (c1, calls)"
    by (cases "CrawlAll marshal first (NewCrawlingCoordinator :: 'a CrawlingCoordinator)") auto
  obtain c2 cycles returned where lp: "periodic_loop marshal c1 events = (c2, cycles, returned)"
    by (cases "periodic_loop marshal c1 events") auto
  have len: "length cycles = length (takeWhile (\<lambda>e. e \<noteq> StopSignal) events)"
    using periodic_loop_cycles [of marshal c1 events] lp by simp
  have "startCircuitBreakerCoordinator marshal seconds first events = Some (c2, calls # cycles, returned)"
    using pos by (simp add: startCircuitBreakerCoordinator_def ca StartPeriodicCrawling_def lp)
  then show "\<exists>c' cycles returned.
           startCircuitBreakerCoordinator marshal seconds first events = Some (c', cycles, returned)
           \<and> hd cycles = snd (CrawlAll marshal first NewCrawlingCoordinator)
           \<and> length cycles = 1 + length (takeWhile (\<lambda>e. e \<noteq> StopSignal) events)"
    using len ca by simp
qed

theorem periodic_crawling_cycles_witness:
  "0 < (60000000000::int)
   \<and> StartPeriodicCrawling (\<lambda>d. d) 60000000000 [Tick same_again, StopSignal] populated
        = Some (populated, [[]], True)
   \<and> length (fst (snd (periodic_loop (\<lambda>d. d) populated [Tick same_again, Tick same_again, StopSignal, Tick same_again])))
        = 2
   \<and> 0 < (60::int)
   \<and> (\<exists>c' cycles returned.
           startCircuitBreakerCoordinator (\<lambda>d. d) 60 same_again [Tick same_again, StopSignal] = Some (c', cycles, returned)
           \<and> length cycles = 2)"
proof -
  have h1: "0 < (60000000000::int)" and h2: "0 < (60::int)" by simp_all
  have e: "CrawlAll (\<lambda>d. d) same_again populated = (populated, [])"
    by (simp add: coord_defs)
  note t = periodic_crawling_cycles [of 60000000000 "\<lambda>d. d"
      "[Tick same_again, Tick same_again, StopSignal, Tick same_again]" populated "[]" same_again
      60 same_again]
  note t' = periodic_crawling_cycles [of 60000000000 "\<lambda>d. d"
      "[Tick same_again, StopSignal]" populated "[]" same_again 60 same_again]
  have c1: "StartPeriodicCrawling (\<lambda>d. d) 60000000000 [Tick same_again, StopSignal] populated
        = Some (populated, [[]], True)"
    using t h1 e by simp
  have c2: "length (fst (snd (periodic_loop (\<lambda>d. d) populated [Tick same_again, Tick same_again, StopSignal, Tick same_again]))) = 2"
    using t by simp
  have c3: "\<exists>c' cycles returned.
           startCircuitBreakerCoordinator (\<lambda>d. d) 60 same_again [Tick same_again, StopSignal] = Some (c', cycles, returned)
           \<and> length cycles = 2"
  proof -
    from t' h2 obtain c' cycles returned where
      "startCircuitBreakerCoordinator (\<lambda>d. d) 60 same_again [Tick same_again, StopSignal] = Some (c', cycles, returned)"
      "length cycles = 1 + length (takeWhile (\<lambda>e. e \<noteq> StopSignal) [Tick same_again, StopSignal])"
      by blast
    then show ?thesis by simp
  qed
  from h1 h2 c1 c2 c3 show ?thesis by blast
qed

text \<open>
  The claim as it is written fails: started on a new coordinator, the loop has run no
  cycle while no tick has come, and none when the stop signal comes before the first
  tick.
\<close>

theorem periodic_crawling_counterexample:
  "StartPeriodicCrawling (\<lambda>d. d) 60000000000 [] (NewCrawlingCoordinator :: string CrawlingCoordinator)
     = Some (NewCrawlingCoordinator, [], False)
   \<and> StartPeriodicCrawling (\<lambda>d. d) 60000000000 [StopSignal] (NewCrawlingCoordinator :: string CrawlingCoordinator)
     = Some (NewCrawlingCoordinator, [], True)"
  by (simp add: StartPeriodicCrawling_def)

section \<open>Circuit breaker: trip and fail-fast\<close>

lemmas breaker_defs = NewCircuitBreaker_def gobreaker_NewCircuitBreaker_def breaker_settings_def
  Execute_def gobreaker_Execute_def record_outcome_def ReadyToTrip_def no_counts_def Second_def
  Let_def

lemma ReadyToTrip_three_two:
  "ReadyToTrip \<lparr> Requests = 3, TotalFailures = 2, ConsecutiveSuccesses = k \<rparr>"
  by (simp add: ReadyToTrip_def)

text \<open>
  C3 (trip and fail-fast), as the breaker modelled from the specification has it, with
  the settings and \<^verbatim>\<open>ReadyToTrip\<close> of \<^verbatim>\<open>NewCircuitBreaker\<close>. Three calls on
  a Closed breaker whose counts are empty, each before the end of its current window and
  two of them failing, all go through to the wrapped function and leave the breaker
  Open, opened at the time of the third. A new breaker is Closed with empty counts and
  its window ends 10 seconds after its construction. An Open breaker called before
  \<^verbatim>\<open>openedAt + Timeout\<close> (30 seconds for a breaker of \<^verbatim>\<open>NewCircuitBreaker\<close>)
  returns the circuit-open error, does not invoke the function and stays as it is.
\<close>

theorem breaker_trips_and_fails_fast:
  "(cb_state b0 = Closed \<and> counts b0 = no_counts
      \<and> t1 < windowEnd b0 \<and> t2 < windowEnd b0 \<and> t3 < windowEnd b0
      \<and> length (filter isl [r1, r2, r3]) = 2
      \<longrightarrow> cb_state (fst (Execute (fst (Execute (fst (Execute b0 t1 r1)) t2 r2)) t3 r3)) = Open
          \<and> openedAt (fst (Execute (fst (Execute (fst (Execute b0 t1 r1)) t2 r2)) t3 r3)) = t3
          \<and> Execute_calls b0 [(t1, r1), (t2, r2), (t3, r3)]
               = fst (Execute (fst (Execute (fst (Execute b0 t1 r1)) t2 r2)) t3 r3)
          \<and> snd (snd (Execute b0 t1 r1))
          \<and> snd (snd (Execute (fst (Execute b0 t1 r1)) t2 r2))
          \<and> snd (snd (Execute (fst (Execute (fst (Execute b0 t1 r1)) t2 r2)) t3 r3)))
   \<and> (cb_state b = Open \<and> now < openedAt b + Timeout (settings b)
        \<longrightarrow> Execute b now r = (b, Inl ErrOpenState, False))
   \<and> cb_state (NewCircuitBreaker name t0) = Closed
   \<and> counts (NewCircuitBreaker name t0) = no_counts
   \<and> windowEnd (NewCircuitBreaker name t0) = t0 + 10 * Second
   \<and> Timeout (settings (NewCircuitBreaker name t0)) = 30 * Second
   \<and> ReadyToTrip \<lparr> Requests = 3, TotalFailures = 2, ConsecutiveSuccesses = k \<rparr>"
proof (intro conjI impI)
  assume a: "cb_state b0 = Closed \<and> counts b0 = no_counts
      \<and> t1 < windowEnd b0 \<and> t2 < windowEnd b0 \<and> t3 < windowEnd b0
      \<and> length (filter isl [r1, r2, r3]) = 2"
  let ?b1 = "fst (Execute b0 t1 r1)"
  let ?b2 = "fst (Execute ?b1 t2 r2)"
  let ?b3 = "fst (Execute ?b2 t3 r3)"
  have b1: "?b1 = b0\<lparr>counts := \<lparr> Requests = 1, TotalFailures = (if isl r1 then 1 else 0),
                   ConsecutiveSuccesses = (if isl r1 then 0 else 1) \<rparr>\<rparr>"
    and i1: "snd (snd (Execute b0 t1 r1))"
    using a by (simp_all add: Execute_def gobreaker_Execute_def record_outcome_def
        ReadyToTrip_def no_counts_def Let_def)
  have b2: "?b2 = b0\<lparr>counts := \<lparr> Requests = 2,
                   TotalFailures = (if isl r1 then 1 else 0) + (if isl r2 then 1 else 0),
                   ConsecutiveSuccesses = (if isl r2 then 0 else if isl r1 then 1 else 2) \<rparr>\<rparr>"
    and i2: "snd (snd (Execute ?b1 t2 r2))"
    unfolding b1 using a by (simp_all add: Execute_def gobreaker_Execute_def record_outcome_def
        ReadyToTrip_def no_counts_def Let_def)
  have two: "(if isl r1 then 1 else 0) + (if isl r2 then 1 else 0) + (if isl r3 then 1 else (0::nat)) = 2"
    using a by (simp split: if_splits)
  have b3: "?b3 = b0\<lparr>cb_state := Open, counts := no_counts, openedAt := t3\<rparr>"
    and i3: "snd (snd (Execute ?b2 t3 r3))"
    unfolding b2 using a two by (simp_all add: Execute_def gobreaker_Execute_def record_outcome_def
        ReadyToTrip_def no_counts_def Let_def split: if_splits)
  show "cb_state ?b3 = Open" by (simp only: b3) simp
  show "openedAt ?b3 = t3" by (simp only: b3) simp
  show "Execute_calls b0 [(t1, r1), (t2, r2), (t3, r3)] = ?b3" by simp
  show "snd (snd (Execute b0 t1 r1))" by (rule i1)
  show "snd (snd (Execute ?b1 t2 r2))" by (rule i2)
  show "snd (snd (Execute ?b2 t3 r3))" by (rule i3)
next
  assume "cb_state b = Open \<and> now < openedAt b + Timeout (settings b)"
  then show "Execute b now r = (b, Inl ErrOpenState, False)"
    by (simp add: Execute_def gobreaker_Execute_def)
next
  show "cb_state (NewCircuitBreaker name t0) = Closed"
    and "counts (NewCircuitBreaker name t0) = no_counts"
    and "windowEnd (NewCircuitBreaker name t0) = t0 + 10 * Second"
    and "Timeout (settings (NewCircuitBreaker name t0)) = 30 * Second"
    by (simp_all add: NewCircuitBreaker_def gobreaker_NewCircuitBreaker_def breaker_settings_def)
  show "ReadyToTrip \<lparr> Requests = 3, TotalFailures = 2, ConsecutiveSuccesses = k \<rparr>"
    by (rule ReadyToTrip_three_two)
qed

theorem breaker_trips_and_fails_fast_witness:
  "cb_state (NewCircuitBreaker ''repo-crawler'' 0) = Closed
   \<and> counts (NewCircuitBreaker ''repo-crawler'' 0) = no_counts
   \<and> Second < windowEnd (NewCircuitBreaker ''repo-crawler'' 0)
   \<and> 2 * Second < windowEnd (NewCircuitBreaker ''repo-crawler'' 0)
   \<and> 3 * Second < windowEnd (NewCircuitBreaker ''repo-crawler'' 0)
   \<and> length (filter isl [Inl ''status 500'', Inl ''status 500'', Inr ''[5000]'' :: string + string]) = 2
   \<and> cb_state (fst (Execute (fst (Execute (fst (Execute (NewCircuitBreaker ''repo-crawler'' 0)
          Second (Inl ''status 500'' :: string + string)))
          (2 * Second) (Inl ''status 500'' :: string + string)))
          (3 * Second) (Inr ''[5000]'' :: string + string))) = Open
   \<and> cb_state (NewCircuitBreaker ''repo-crawler'' 0\<lparr>cb_state := Open, openedAt := 3 * Second\<rparr>) = Open
   \<and> 32 * Second < openedAt (NewCircuitBreaker ''repo-crawler'' 0\<lparr>cb_state := Open, openedAt := 3 * Second\<rparr>)
        + Timeout (settings (NewCircuitBreaker ''repo-crawler'' 0\<lparr>cb_state := Open, openedAt := 3 * Second\<rparr>))
   \<and> Execute (NewCircuitBreaker ''repo-crawler'' 0\<lparr>cb_state := Open, openedAt := 3 * Second\<rparr>)
         (32 * Second) (Inr ''[5000]'' :: string + string)
       = (NewCircuitBreaker ''repo-crawler'' 0\<lparr>cb_state := Open, openedAt := 3 * Second\<rparr>,
          Inl ErrOpenState, False)"
proof -
  let ?new = "NewCircuitBreaker ''repo-crawler'' 0"
  let ?open = "NewCircuitBreaker ''repo-crawler'' 0\<lparr>cb_state := Open, openedAt := 3 * Second\<rparr>"
  let ?f = "Inl ''status 500'' :: string + string"
  let ?s = "Inr ''[5000]'' :: string + string"
  have h1: "cb_state ?new = Closed \<and> counts ?new = no_counts
     \<and> Second < windowEnd ?new \<and> 2 * Second < windowEnd ?new \<and> 3 * Second < windowEnd ?new
     \<and> length (filter isl [?f, ?f, ?s]) = 2"
    by (simp add: NewCircuitBreaker_def gobreaker_NewCircuitBreaker_def breaker_settings_def Second_def)
  have h2: "cb_state ?open = Open \<and> 32 * Second < openedAt ?open + Timeout (settings ?open)"
    by (simp add: NewCircuitBreaker_def gobreaker_NewCircuitBreaker_def breaker_settings_def Second_def)
  note t = breaker_trips_and_fails_fast [of ?new Second "2 * Second" "3 * Second"
      ?f ?f ?s ?open "32 * Second" ?s "''repo-crawler''" 0 0]
  have c1: "cb_state (fst (Execute (fst (Execute (fst (Execute ?new Second ?f)) (2 * Second) ?f))
      (3 * Second) ?s)) = Open"
    by (rule conjunct1 [OF mp [OF conjunct1 [OF t] h1]])
  have c2: "Execute ?open (32 * Second) ?s = (?open, Inl ErrOpenState, False)"
    by (rule mp [OF conjunct1 [OF conjunct2 [OF t]] h2])
  from h1 h2 c1 c2 show ?thesis by (intro conjI) (simp_all only:)
qed

text \<open>
  The claim as it is written fails where the three calls are not the only ones of one
  window. Two failures and a success at 5, 11 and 12 seconds on a breaker made at time 0
  lie on both sides of the window boundary at 10 seconds and leave the breaker Closed;
  so do two failures and a success that follow three successes of the same window.
\<close>

theorem breaker_trip_counterexample:
  "length (filter isl [Inl ''status 500'', Inl ''status 500'', Inr ''[5000]'' :: string + string]) = 2
   \<and> cb_state (Execute_calls (NewCircuitBreaker ''repo-crawler'' 0)
        [(5 * Second, Inl ''status 500'' :: string + string), (11 * Second, Inl ''status 500''),
         (12 * Second, Inr ''[5000]'')]) = Closed
   \<and> cb_state (Execute_calls (NewCircuitBreaker ''repo-crawler'' 0)
        [(1 * Second, Inr ''[5000]'' :: string + string), (2 * Second, Inr ''[5000]''),
         (3 * Second, Inr ''[5000]'')]) = Closed
   \<and> cb_state (Execute_calls
        (Execute_calls (NewCircuitBreaker ''repo-crawler'' 0)
           [(1 * Second, Inr ''[5000]'' :: string + string), (2 * Second, Inr ''[5000]''),
            (3 * Second, Inr ''[5000]'')])
        [(4 * Second, Inl ''status 500'' :: string + string), (5 * Second, Inl ''status 500''),
         (6 * Second, Inr ''[5000]'')]) = Closed"
  by (simp add: breaker_defs)

end
